theory Spec2Isabelle
  imports Main "HOL-Library.Word"
begin

section \<open>Merkle claim generation: the hashing core of the gen-merkle scripts\<close>

text \<open>
  The scripts under \<^verbatim>\<open>src/scripts\<close> read a CSV of (address, amount, generatedLoss)
  rows, hash every row to a leaf, build a sorted-pair Merkle tree and write one proof
  per row. This theory embeds the Merkle helpers of the three viem-based variants
  (\<^verbatim>\<open>leafPacked\<close>, \<^verbatim>\<open>hashPair\<close>, \<^verbatim>\<open>buildTree\<close>, \<^verbatim>\<open>getProof\<close>) and the leaf hash
  of \<^verbatim>\<open>generate-claims.mjs\<close>.

  Values are what the JavaScript holds: hashes and addresses are hex strings
  (\<^verbatim>\<open>0x\<close> followed by hex digits), compared as strings. Keccak-256 itself is the
  permutation-based primitive of an npm dependency; it is a parameter \<open>K\<close> of every
  definition that hashes, a function from the bytes hashed to the 256-bit digest.
\<close>

subsection \<open>Strings, hex digits and bytes\<close>

type_synonym byte = "8 word"
type_synonym hex = string
type_synonym keccak = "byte list \<Rightarrow> 256 word"

datatype error =
    NoLeaves               \<comment> \<open>\<^verbatim>\<open>throw new Error("No leaves")\<close>\<close>
  | LeafNotFound           \<comment> \<open>\<^verbatim>\<open>throw new Error("Leaf not found in layer 0")\<close>\<close>
  | TypeError              \<comment> \<open>a method call on \<^verbatim>\<open>undefined\<close>\<close>
  | BytesSizeMismatch      \<comment> \<open>encodePacked: a \<^verbatim>\<open>bytes32\<close> value that is not 32 bytes of hex\<close>
  | InvalidAddress         \<comment> \<open>encodePacked: an \<^verbatim>\<open>address\<close> value that is not an address\<close>
  | IntegerOutOfRange      \<comment> \<open>encodePacked: a \<^verbatim>\<open>uint256\<close> value outside 0 .. 2^256 - 1\<close>

text \<open>The code unit of a character, as JavaScript's string comparison sees it.\<close>

definition code :: "char \<Rightarrow> nat" where
  "code c = of_char c"

text \<open>The character class \<^verbatim>\<open>[0-9a-fA-F]\<close>.\<close>

definition isHexChar :: "char \<Rightarrow> bool" where
  "isHexChar c =
     ((48 \<le> code c \<and> code c \<le> 57) \<or> (97 \<le> code c \<and> code c \<le> 102) \<or>
      (65 \<le> code c \<and> code c \<le> 70))"

definition hexValue :: "char \<Rightarrow> nat" where
  "hexValue c =
     (if 48 \<le> code c \<and> code c \<le> 57 then code c - 48
      else if 97 \<le> code c \<and> code c \<le> 102 then code c - 87
      else if 65 \<le> code c \<and> code c \<le> 70 then code c - 55
      else 0)"

text \<open>
  \<^verbatim>\<open>String.prototype.toLowerCase\<close> on the ASCII range, which is all that a hex
  string holds: \<^verbatim>\<open>A\<close>..\<^verbatim>\<open>Z\<close> become \<^verbatim>\<open>a\<close>..\<^verbatim>\<open>z\<close>, every other character stays.
\<close>

definition toLowerChar :: "char \<Rightarrow> char" where
  "toLowerChar c = (if 65 \<le> code c \<and> code c \<le> 90 then char_of (code c + 32) else c)"

definition toLowerCase :: "string \<Rightarrow> string" where
  "toLowerCase s = map toLowerChar s"

text \<open>
  JavaScript's \<^verbatim>\<open><\<close> on two strings: lexicographic by code unit, a proper prefix
  is smaller.
\<close>

fun js_lt :: "string \<Rightarrow> string \<Rightarrow> bool" where
  "js_lt [] [] = False"
| "js_lt [] (y # ys) = True"
| "js_lt (x # xs) [] = False"
| "js_lt (x # xs) (y # ys) = (code x < code y \<or> (x = y \<and> js_lt xs ys))"

text \<open>Byte-lexicographic order on byte strings (unsigned bytes).\<close>

fun bytes_lt :: "byte list \<Rightarrow> byte list \<Rightarrow> bool" where
  "bytes_lt [] [] = False"
| "bytes_lt [] (y # ys) = True"
| "bytes_lt (x # xs) [] = False"
| "bytes_lt (x # xs) (y # ys) = (x < y \<or> (x = y \<and> bytes_lt xs ys))"

text \<open>Two hex digits make one byte, the first digit the high nibble.\<close>

definition hexByte :: "char \<Rightarrow> char \<Rightarrow> byte" where
  "hexByte h l = word_of_nat (16 * hexValue h + hexValue l)"

fun hexPairs :: "string \<Rightarrow> byte list" where
  "hexPairs (h # l # rest) = hexByte h l # hexPairs rest"
| "hexPairs [d] = []"
| "hexPairs [] = []"

text \<open>
  The bytes a hex string stands for: the \<^verbatim>\<open>0x\<close> prefix is dropped, an odd number of
  digits is padded with a leading \<^verbatim>\<open>0\<close>.
\<close>

definition hexToBytes :: "hex \<Rightarrow> byte list" where
  "hexToBytes v =
     (let d = drop 2 v in hexPairs (if odd (length d) then CHR ''0'' # d else d))"

definition hexDigit :: "nat \<Rightarrow> char" where
  "hexDigit n = ''0123456789abcdef'' ! (n mod 16)"

text \<open>
  A number below \<open>2^256\<close> as \<^verbatim>\<open>0x\<close> and 64 lowercase hex digits, most significant
  first (\<^verbatim>\<open>numberToHex(value, { size: 32 })\<close>, and the hex form of a 32-byte digest).
\<close>

definition hex64 :: "nat \<Rightarrow> hex" where
  "hex64 n = ''0x'' @ map (\<lambda>i. hexDigit (n div 16 ^ (63 - i))) [0..<64]"

text \<open>A \<^verbatim>\<open>bytes32\<close> value: \<^verbatim>\<open>0x\<close> and exactly 64 hex digits of either case.\<close>

definition isBytes32 :: "hex \<Rightarrow> bool" where
  "isBytes32 v = (length v = 66 \<and> take 2 v = ''0x'' \<and> list_all isHexChar (drop 2 v))"

subsection \<open>The library calls: \<^verbatim>\<open>encodePacked\<close> and \<^verbatim>\<open>keccak256\<close>\<close>

text \<open>
  Modelled from the spec: \<^verbatim>\<open>encodePacked\<close> and \<^verbatim>\<open>keccak256\<close> are imported from the
  npm package viem, which is not under \<^verbatim>\<open>src/\<close>. Section 4.1 of the specification
  fixes what they do: \<^verbatim>\<open>encodePacked(["bytes32","bytes32"], [a, b])\<close> is the tight
  concatenation of two 32-byte values in the order given, and the call rejects a value
  that is not 32 bytes. The result is again a hex string.
\<close>

definition encodePacked_bytes32_bytes32 :: "hex \<times> hex \<Rightarrow> error + hex" where
  "encodePacked_bytes32_bytes32 p =
     (case p of (l, r) \<Rightarrow>
        if isBytes32 l \<and> isBytes32 r then Inr (''0x'' @ drop 2 l @ drop 2 r)
        else Inl BytesSizeMismatch)"

text \<open>
  Modelled from the spec: \<^verbatim>\<open>keccak256(hex)\<close> of viem hashes the bytes the hex string
  stands for and returns the 32-byte digest as a lowercase hex string (Section 4.2).
  The scripts apply it to results of \<^verbatim>\<open>encodePacked\<close> only.
\<close>

definition keccak256 :: "keccak \<Rightarrow> hex \<Rightarrow> hex" where
  "keccak256 K v = hex64 (unat (K (hexToBytes v)))"

subsection \<open>\<^verbatim>\<open>hashPair\<close> (gen-merkle.mjs, first script, lines 76-83)\<close>

text \<open>
  \<^verbatim>\<open>
  function hashPair(a, b) {
    // sorted pair
    const A = a.toLowerCase();
    const B = b.toLowerCase();
    return keccak256(
      encodePacked(["bytes32", "bytes32"], A < B ? [a, b] : [b, a])
    );
  }
  \<close>
\<close>

definition hashPair :: "keccak \<Rightarrow> hex \<Rightarrow> hex \<Rightarrow> error + hex" where
  "hashPair K a b =
     (let A = toLowerCase a;
          B = toLowerCase b
      in case encodePacked_bytes32_bytes32 (if js_lt A B then (a, b) else (b, a)) of
           Inl e \<Rightarrow> Inl e
         | Inr packed \<Rightarrow> Inr (keccak256 K packed))"

subsection \<open>\<^verbatim>\<open>buildTree\<close> (gen-merkle.mjs, first script, lines 85-103)\<close>

text \<open>
  \<^verbatim>\<open>
  function buildTree(leaves) {
    if (leaves.length === 0) throw new Error("No leaves");
    let level = leaves.slice();
    const layers = [level];
    while (level.length > 1) {
      const next = [];
      for (let i = 0; i < level.length; i += 2) {
        const left = level[i];
        const right = i + 1 < level.length ? level[i + 1] : level[i]; // duplicate last
        next.push(hashPair(left, right));
      }
      level = next;
      layers.push(level);
    }
    return { root: layers[layers.length - 1][0], layers };
  }
  \<close>
  The inner \<^verbatim>\<open>for\<close> loop, with its counter \<open>i\<close> and the array \<open>next\<close> it fills. Both
  reads of \<open>level\<close> are below \<open>length level\<close> by the loop test and the guard. An
  exception of \<^verbatim>\<open>hashPair\<close> leaves the loop.
\<close>

function buildTree_for :: "keccak \<Rightarrow> hex list \<Rightarrow> nat \<Rightarrow> hex list \<Rightarrow> error + hex list" where
  "buildTree_for K level i next =
     (if i < length level then
        (let left = level ! i;
             right = (if i + 1 < length level then level ! (i + 1) else level ! i)
         in case hashPair K left right of
              Inl e \<Rightarrow> Inl e
            | Inr h \<Rightarrow> buildTree_for K level (i + 2) (next @ [h]))
      else Inr next)"
  by pat_completeness auto
termination
  by (relation "measure (\<lambda>(K, level, i, next). length level - i)") auto

declare buildTree_for.simps [simp del]

lemma length_buildTree_for:
  "buildTree_for K level i next = Inr out \<Longrightarrow>
     length out = length next + (length level - i + 1) div 2"
proof (induction K level i "next" arbitrary: out rule: buildTree_for.induct)
  case (1 K level i nxt)
  show ?case
  proof (cases "i < length level")
    case True
    with "1.prems" obtain h where
      h: "hashPair K (level ! i) (if i + 1 < length level then level ! (i + 1) else level ! i) = Inr h"
      and r: "buildTree_for K level (i + 2) (nxt @ [h]) = Inr out"
      by (subst (asm) buildTree_for.simps) (simp add: Let_def split: sum.splits)
    from "1.IH" [OF True refl refl h r] True show ?thesis by simp arith
  next
    case False
    with "1.prems" show ?thesis by (subst (asm) buildTree_for.simps) simp
  qed
qed

text \<open>The \<^verbatim>\<open>while\<close> loop, with \<open>level\<close> and the array \<open>layers\<close> it extends.\<close>

function buildTree_while :: "keccak \<Rightarrow> hex list \<Rightarrow> hex list list \<Rightarrow> error + hex list list" where
  "buildTree_while K level layers =
     (if length level > 1 then
        (case buildTree_for K level 0 [] of
           Inl e \<Rightarrow> Inl e
         | Inr next \<Rightarrow> buildTree_while K next (layers @ [next]))
      else Inr layers)"
  by pat_completeness auto
termination
proof (relation "measure (\<lambda>(K, level, layers). length level)")
  show "wf (measure (\<lambda>(K, level, layers). length level))" by simp
next
  fix K :: keccak and level :: "hex list" and layers :: "hex list list" and nxt :: "hex list"
  assume "1 < length level" and "buildTree_for K level 0 [] = Inr nxt"
  then show "((K, nxt, layers @ [nxt]), (K, level, layers)) \<in> measure (\<lambda>(K, level, layers). length level)"
    using length_buildTree_for [of K level 0 "[]" nxt] by simp
qed

declare buildTree_while.simps [simp del]

subsection \<open>\<^verbatim>\<open>getProof\<close> (gen-merkle.mjs, first script, lines 105-119)\<close>

text \<open>
  \<^verbatim>\<open>
  function getProof(leaf, layers) {
    let idx = layers[0].indexOf(leaf);
    if (idx === -1) throw new Error("Leaf not found in layer 0");
    const proof = [];
    for (let level = 0; level < layers.length - 1; level++) {
      const layer = layers[level];
      const isRightNode = idx % 2 === 1;
      const pairIndex = isRightNode ? idx - 1 : idx + 1;
      const sibling = pairIndex < layer.length ? layer[pairIndex] : layer[idx]; // duplicate
      proof.push(sibling);
      idx = Math.floor(idx / 2);
    }
    return proof;
  }
  \<close>
  Reading a JavaScript array past its end gives \<^verbatim>\<open>undefined\<close> and does not throw:
  \<open>js_get\<close> returns \<open>None\<close> there, so a proof is a list of \<open>hex option\<close>.
  \<^verbatim>\<open>Array.prototype.indexOf\<close> returns the first position that holds the value
  (strict equality, on strings equality of the characters), and \<open>-1\<close> when none does.
\<close>

definition js_get :: "'a list \<Rightarrow> nat \<Rightarrow> 'a option" where
  "js_get xs i = (if i < length xs then Some (xs ! i) else None)"

fun indexOf :: "'a list \<Rightarrow> 'a \<Rightarrow> int" where
  "indexOf [] x = - 1"
| "indexOf (y # ys) x =
     (if y = x then 0 else (let r = indexOf ys x in if r = - 1 then - 1 else r + 1))"

function getProof_loop :: "hex list list \<Rightarrow> nat \<Rightarrow> nat \<Rightarrow> hex option list \<Rightarrow> hex option list" where
  "getProof_loop layers level idx proof =
     (if int level < int (length layers) - 1 then
        (let layer = layers ! level;
             isRightNode = (idx mod 2 = 1);
             pairIndex = (if isRightNode then idx - 1 else idx + 1);
             sibling = (if pairIndex < length layer then js_get layer pairIndex
                        else js_get layer idx)
         in getProof_loop layers (level + 1) (idx div 2) (proof @ [sibling]))
      else proof)"
  by pat_completeness auto
termination
  by (relation "measure (\<lambda>(layers, level, idx, proof). length layers - level)") auto

declare getProof_loop.simps [simp del]

text \<open>
  \<^verbatim>\<open>layers[0]\<close> of an empty \<open>layers\<close> is \<^verbatim>\<open>undefined\<close>, and the call of
  \<^verbatim>\<open>indexOf\<close> on it throws a TypeError.
\<close>

definition getProof :: "hex \<Rightarrow> hex list list \<Rightarrow> error + hex option list" where
  "getProof leaf layers =
     (case layers of
        [] \<Rightarrow> Inl TypeError
      | layer0 # _ \<Rightarrow>
          (let idx = indexOf layer0 leaf
           in if idx = - 1 then Inl LeafNotFound
              else Inr (getProof_loop layers 0 (nat idx) [])))"

text \<open>
  The reads of \<^verbatim>\<open>getProof\<close>'s loop, in order: for every pass the level, the running
  index \<open>idx\<close> at that level, and the position of \<open>layer\<close> that the pass reads.
\<close>

function getProof_reads :: "hex list list \<Rightarrow> nat \<Rightarrow> nat \<Rightarrow> (nat \<times> nat \<times> nat) list" where
  "getProof_reads layers level idx =
     (if int level < int (length layers) - 1 then
        (let layer = layers ! level;
             isRightNode = (idx mod 2 = 1);
             pairIndex = (if isRightNode then idx - 1 else idx + 1);
             pos = (if pairIndex < length layer then pairIndex else idx)
         in (level, idx, pos) # getProof_reads layers (level + 1) (idx div 2))
      else [])"
  by pat_completeness auto
termination
  by (relation "measure (\<lambda>(layers, level, idx). length layers - level)") auto

declare getProof_reads.simps [simp del]

subsection \<open>The Merkle helpers of gen-merkle.mjs, second script (lines 258-310)\<close>

text \<open>
  \<^verbatim>\<open>
  function hashPair(a, b) {
    // sorted pair
    return keccak256(
      encodePacked(["bytes32", "bytes32"], a.toLowerCase() < b.toLowerCase() ? [a, b] : [b, a])
    );
  }
  \<close>
\<close>

definition hashPair_v2 :: "keccak \<Rightarrow> hex \<Rightarrow> hex \<Rightarrow> error + hex" where
  "hashPair_v2 K a b =
     (case encodePacked_bytes32_bytes32
             (if js_lt (toLowerCase a) (toLowerCase b) then (a, b) else (b, a)) of
        Inl e \<Rightarrow> Inl e
      | Inr packed \<Rightarrow> Inr (keccak256 K packed))"

lemma hashPair_v2_eq: "hashPair_v2 K a b = hashPair K a b"
  by (simp add: hashPair_v2_def hashPair_def Let_def split: if_splits)

text \<open>
  \<^verbatim>\<open>buildTree\<close> of this script: the text of the first script's, with the comment
  \<^verbatim>\<open>// duplicate last\<close>, calling this script's \<^verbatim>\<open>hashPair\<close>.
\<close>

function buildTree_for_v2 :: "keccak \<Rightarrow> hex list \<Rightarrow> nat \<Rightarrow> hex list \<Rightarrow> error + hex list" where
  "buildTree_for_v2 K level i next =
     (if i < length level then
        (let left = level ! i;
             right = (if i + 1 < length level then level ! (i + 1) else level ! i)
         in case hashPair_v2 K left right of
              Inl e \<Rightarrow> Inl e
            | Inr h \<Rightarrow> buildTree_for_v2 K level (i + 2) (next @ [h]))
      else Inr next)"
  by pat_completeness auto
termination
  by (relation "measure (\<lambda>(K, level, i, next). length level - i)") auto

declare buildTree_for_v2.simps [simp del]

lemma buildTree_for_v2_eq:
  "buildTree_for_v2 K level i nxt = buildTree_for K level i nxt"
proof (induction K level i nxt rule: buildTree_for.induct)
  case (1 K level i nxt)
  show ?case
  proof (cases "i < length level")
    case True
    let ?right = "if i + 1 < length level then level ! (i + 1) else level ! i"
    show ?thesis
    proof (cases "hashPair K (level ! i) ?right")
      case (Inl e)
      with True show ?thesis
        by (subst buildTree_for_v2.simps, subst buildTree_for.simps)
          (simp add: Let_def hashPair_v2_eq)
    next
      case (Inr h)
      from "1.IH" [OF True refl refl Inr] Inr True show ?thesis
        by (subst buildTree_for_v2.simps, subst buildTree_for.simps)
          (simp add: Let_def hashPair_v2_eq)
    qed
  next
    case False
    then show ?thesis
      by (subst buildTree_for_v2.simps, subst buildTree_for.simps) simp
  qed
qed

function buildTree_while_v2 :: "keccak \<Rightarrow> hex list \<Rightarrow> hex list list \<Rightarrow> error + hex list list" where
  "buildTree_while_v2 K level layers =
     (if length level > 1 then
        (case buildTree_for_v2 K level 0 [] of
           Inl e \<Rightarrow> Inl e
         | Inr next \<Rightarrow> buildTree_while_v2 K next (layers @ [next]))
      else Inr layers)"
  by pat_completeness auto
termination
proof (relation "measure (\<lambda>(K, level, layers). length level)")
  show "wf (measure (\<lambda>(K, level, layers). length level))" by simp
next
  fix K :: keccak and level :: "hex list" and layers :: "hex list list" and nxt :: "hex list"
  assume "1 < length level" and "buildTree_for_v2 K level 0 [] = Inr nxt"
  then show "((K, nxt, layers @ [nxt]), (K, level, layers)) \<in> measure (\<lambda>(K, level, layers). length level)"
    using length_buildTree_for [of K level 0 "[]" nxt] by (simp add: buildTree_for_v2_eq)
qed

declare buildTree_while_v2.simps [simp del]

text \<open>
  \<^verbatim>\<open>getProof\<close> of this script: the text of the first script's.
\<close>

function getProof_loop_v2 :: "hex list list \<Rightarrow> nat \<Rightarrow> nat \<Rightarrow> hex option list \<Rightarrow> hex option list" where
  "getProof_loop_v2 layers level idx proof =
     (if int level < int (length layers) - 1 then
        (let layer = layers ! level;
             isRightNode = (idx mod 2 = 1);
             pairIndex = (if isRightNode then idx - 1 else idx + 1);
             sibling = (if pairIndex < length layer then js_get layer pairIndex
                        else js_get layer idx)
         in getProof_loop_v2 layers (level + 1) (idx div 2) (proof @ [sibling]))
      else proof)"
  by pat_completeness auto
termination
  by (relation "measure (\<lambda>(layers, level, idx, proof). length layers - level)") auto

declare getProof_loop_v2.simps [simp del]

definition getProof_v2 :: "hex \<Rightarrow> hex list list \<Rightarrow> error + hex option list" where
  "getProof_v2 leaf layers =
     (case layers of
        [] \<Rightarrow> Inl TypeError
      | layer0 # _ \<Rightarrow>
          (let idx = indexOf layer0 leaf
           in if idx = - 1 then Inl LeafNotFound
              else Inr (getProof_loop_v2 layers 0 (nat idx) [])))"

subsection \<open>The Merkle helpers of the third script (lines 69-124)\<close>

text \<open>
  The third script is the file of \<^verbatim>\<open>src/scripts\<close> whose name is \<^verbatim>\<open>gen-merkle.mjs\<close>
  with a blank in front; the first and the second are the two scripts that the file
  \<^verbatim>\<open>gen-merkle.mjs\<close> holds.
\<close>

text \<open>
  \<^verbatim>\<open>
  function hashPair(a, b) {
    // sort deterministically
    const aa = a.toLowerCase();
    const bb = b.toLowerCase();
    const [left, right] = aa < bb ? [a, b] : [b, a];
    return keccak256(encodePacked(["bytes32", "bytes32"], [left, right]));
  }
  \<close>
\<close>

definition hashPair_v3 :: "keccak \<Rightarrow> hex \<Rightarrow> hex \<Rightarrow> error + hex" where
  "hashPair_v3 K a b =
     (let aa = toLowerCase a;
          bb = toLowerCase b;
          (left, right) = (if js_lt aa bb then (a, b) else (b, a))
      in case encodePacked_bytes32_bytes32 (left, right) of
           Inl e \<Rightarrow> Inl e
         | Inr packed \<Rightarrow> Inr (keccak256 K packed))"

lemma hashPair_v3_eq: "hashPair_v3 K a b = hashPair K a b"
  by (simp add: hashPair_v3_def hashPair_def Let_def split: if_splits)

text \<open>
  \<^verbatim>\<open>buildTree\<close> of this script: the text of the first script's, with the comment
  \<^verbatim>\<open>// duplicate last if odd\<close>, calling this script's \<^verbatim>\<open>hashPair\<close>.
\<close>

function buildTree_for_v3 :: "keccak \<Rightarrow> hex list \<Rightarrow> nat \<Rightarrow> hex list \<Rightarrow> error + hex list" where
  "buildTree_for_v3 K level i next =
     (if i < length level then
        (let left = level ! i;
             right = (if i + 1 < length level then level ! (i + 1) else level ! i)
         in case hashPair_v3 K left right of
              Inl e \<Rightarrow> Inl e
            | Inr h \<Rightarrow> buildTree_for_v3 K level (i + 2) (next @ [h]))
      else Inr next)"
  by pat_completeness auto
termination
  by (relation "measure (\<lambda>(K, level, i, next). length level - i)") auto

declare buildTree_for_v3.simps [simp del]

lemma buildTree_for_v3_eq:
  "buildTree_for_v3 K level i nxt = buildTree_for K level i nxt"
proof (induction K level i nxt rule: buildTree_for.induct)
  case (1 K level i nxt)
  show ?case
  proof (cases "i < length level")
    case True
    let ?right = "if i + 1 < length level then level ! (i + 1) else level ! i"
    show ?thesis
    proof (cases "hashPair K (level ! i) ?right")
      case (Inl e)
      with True show ?thesis
        by (subst buildTree_for_v3.simps, subst buildTree_for.simps)
          (simp add: Let_def hashPair_v3_eq)
    next
      case (Inr h)
      from "1.IH" [OF True refl refl Inr] Inr True show ?thesis
        by (subst buildTree_for_v3.simps, subst buildTree_for.simps)
          (simp add: Let_def hashPair_v3_eq)
    qed
  next
    case False
    then show ?thesis
      by (subst buildTree_for_v3.simps, subst buildTree_for.simps) simp
  qed
qed

function buildTree_while_v3 :: "keccak \<Rightarrow> hex list \<Rightarrow> hex list list \<Rightarrow> error + hex list list" where
  "buildTree_while_v3 K level layers =
     (if length level > 1 then
        (case buildTree_for_v3 K level 0 [] of
           Inl e \<Rightarrow> Inl e
         | Inr next \<Rightarrow> buildTree_while_v3 K next (layers @ [next]))
      else Inr layers)"
  by pat_completeness auto
termination
proof (relation "measure (\<lambda>(K, level, layers). length level)")
  show "wf (measure (\<lambda>(K, level, layers). length level))" by simp
next
  fix K :: keccak and level :: "hex list" and layers :: "hex list list" and nxt :: "hex list"
  assume "1 < length level" and "buildTree_for_v3 K level 0 [] = Inr nxt"
  then show "((K, nxt, layers @ [nxt]), (K, level, layers)) \<in> measure (\<lambda>(K, level, layers). length level)"
    using length_buildTree_for [of K level 0 "[]" nxt] by (simp add: buildTree_for_v3_eq)
qed

declare buildTree_while_v3.simps [simp del]

text \<open>
  \<^verbatim>\<open>getProof\<close> of this script: the text of the first script's, with \<^verbatim>\<open>isRight\<close>
  for \<^verbatim>\<open>isRightNode\<close> and the comment \<^verbatim>\<open>// duplicate last if odd\<close>.
\<close>

function getProof_loop_v3 :: "hex list list \<Rightarrow> nat \<Rightarrow> nat \<Rightarrow> hex option list \<Rightarrow> hex option list" where
  "getProof_loop_v3 layers level idx proof =
     (if int level < int (length layers) - 1 then
        (let layer = layers ! level;
             isRight = (idx mod 2 = 1);
             pairIndex = (if isRight then idx - 1 else idx + 1);
             sibling = (if pairIndex < length layer then js_get layer pairIndex
                        else js_get layer idx)
         in getProof_loop_v3 layers (level + 1) (idx div 2) (proof @ [sibling]))
      else proof)"
  by pat_completeness auto
termination
  by (relation "measure (\<lambda>(layers, level, idx, proof). length layers - level)") auto

declare getProof_loop_v3.simps [simp del]

definition getProof_v3 :: "hex \<Rightarrow> hex list list \<Rightarrow> error + hex option list" where
  "getProof_v3 leaf layers =
     (case layers of
        [] \<Rightarrow> Inl TypeError
      | layer0 # _ \<Rightarrow>
          (let idx = indexOf layer0 leaf
           in if idx = - 1 then Inl LeafNotFound
              else Inr (getProof_loop_v3 layers 0 (nat idx) [])))"

text \<open>The object \<^verbatim>\<open>{ root, layers }\<close> that \<^verbatim>\<open>buildTree\<close> returns.\<close>

record tree =
  root :: hex
  layers :: "hex list list"

text \<open>
  \<^verbatim>\<open>leaves.slice()\<close> is a copy with the same elements. The last layer of the loop's
  result holds exactly one hash (lemma \<open>buildTree_Inr\<close> below), so the read
  \<^verbatim>\<open>layers[layers.length - 1][0]\<close> is in range.
\<close>

definition buildTree :: "keccak \<Rightarrow> hex list \<Rightarrow> error + tree" where
  "buildTree K leaves =
     (if length leaves = 0 then Inl NoLeaves
      else (let level = leaves
            in case buildTree_while K level [level] of
                 Inl e \<Rightarrow> Inl e
               | Inr ls \<Rightarrow> Inr \<lparr>root = ls ! (length ls - 1) ! 0, layers = ls\<rparr>))"

text \<open>\<^verbatim>\<open>buildTree\<close> of the second and of the third script.\<close>

definition buildTree_v2 :: "keccak \<Rightarrow> hex list \<Rightarrow> error + tree" where
  "buildTree_v2 K leaves =
     (if length leaves = 0 then Inl NoLeaves
      else (let level = leaves
            in case buildTree_while_v2 K level [level] of
                 Inl e \<Rightarrow> Inl e
               | Inr ls \<Rightarrow> Inr \<lparr>root = ls ! (length ls - 1) ! 0, layers = ls\<rparr>))"

definition buildTree_v3 :: "keccak \<Rightarrow> hex list \<Rightarrow> error + tree" where
  "buildTree_v3 K leaves =
     (if length leaves = 0 then Inl NoLeaves
      else (let level = leaves
            in case buildTree_while_v3 K level [level] of
                 Inl e \<Rightarrow> Inl e
               | Inr ls \<Rightarrow> Inr \<lparr>root = ls ! (length ls - 1) ! 0, layers = ls\<rparr>))"

subsection \<open>\<^verbatim>\<open>leafPacked\<close> (gen-merkle.mjs, first script, lines 66-74)\<close>

text \<open>
  Modelled from the spec: \<^verbatim>\<open>isAddress\<close> and \<^verbatim>\<open>encodePacked\<close> are viem's, not under
  \<^verbatim>\<open>src/\<close>. Section 4.1: the address is 20 bytes (\<^verbatim>\<open>0x\<close> and 40 hex digits), an
  address that is not is rejected; an integer that does not fit 256 bits is rejected;
  the encoding is the tight concatenation of the address's 20 bytes and the two
  integers as 32 bytes each, here as the hex string viem returns. Recent versions of
  viem also refuse an address of mixed case whose capitals are not its checksum;
  \<open>isAddress\<close> leaves that out, and the theorems take a lowercase address, as
  \<^verbatim>\<open>readCsv\<close> provides it.
\<close>

definition isAddress :: "hex \<Rightarrow> bool" where
  "isAddress a = (length a = 42 \<and> take 2 a = ''0x'' \<and> list_all isHexChar (drop 2 a))"

definition encodePacked_address_uint256_uint256 :: "hex \<times> int \<times> int \<Rightarrow> error + hex" where
  "encodePacked_address_uint256_uint256 p =
     (case p of (address, amount, generatedLoss) \<Rightarrow>
        if \<not> isAddress address then Inl InvalidAddress
        else if amount < 0 \<or> 2 ^ 256 \<le> amount then Inl IntegerOutOfRange
        else if generatedLoss < 0 \<or> 2 ^ 256 \<le> generatedLoss then Inl IntegerOutOfRange
        else Inr (''0x'' @ drop 2 (toLowerCase address) @ drop 2 (hex64 (nat amount)) @
                  drop 2 (hex64 (nat generatedLoss))))"

text \<open>
  \<^verbatim>\<open>
  function leafPacked(address, amount, generatedLoss) {
    // MUST MATCH CONTRACT
    return keccak256(
      encodePacked(
        ["address", "uint256", "uint256"],
        [address, BigInt(amount), BigInt(generatedLoss)]
      )
    );
  }
  \<close>
  \<^verbatim>\<open>readCsv\<close> passes on rows whose address is lowercased and accepted by
  \<^verbatim>\<open>isAddress\<close>, and whose amount and generatedLoss are strings of decimal digits.
  \<open>leafPacked\<close> takes the two integers \<^verbatim>\<open>BigInt(amount)\<close> and
  \<^verbatim>\<open>BigInt(generatedLoss)\<close> that these strings denote, as unbounded integers.
\<close>

definition leafPacked :: "keccak \<Rightarrow> hex \<Rightarrow> int \<Rightarrow> int \<Rightarrow> error + hex" where
  "leafPacked K address amount generatedLoss =
     (case encodePacked_address_uint256_uint256 (address, amount, generatedLoss) of
        Inl e \<Rightarrow> Inl e
      | Inr packed \<Rightarrow> Inr (keccak256 K packed))"

text \<open>
  \<^verbatim>\<open>leafPacked\<close> of the second script (lines 260-267, no comment) and of the third
  (lines 71-79, comment \<^verbatim>\<open>// MUST MATCH CONTRACT: keccak256(abi.encodePacked(address,
  uint256,uint256))\<close>): the same statement.
\<close>

definition leafPacked_v2 :: "keccak \<Rightarrow> hex \<Rightarrow> int \<Rightarrow> int \<Rightarrow> error + hex" where
  "leafPacked_v2 K address amount generatedLoss =
     (case encodePacked_address_uint256_uint256 (address, amount, generatedLoss) of
        Inl e \<Rightarrow> Inl e
      | Inr packed \<Rightarrow> Inr (keccak256 K packed))"

definition leafPacked_v3 :: "keccak \<Rightarrow> hex \<Rightarrow> int \<Rightarrow> int \<Rightarrow> error + hex" where
  "leafPacked_v3 K address amount generatedLoss =
     (case encodePacked_address_uint256_uint256 (address, amount, generatedLoss) of
        Inl e \<Rightarrow> Inl e
      | Inr packed \<Rightarrow> Inr (keccak256 K packed))"

subsection \<open>The specification's leaf encoding\<close>

text \<open>
  Section 4.1 of the specification, in its words: the concatenation of the address's
  raw 20 bytes, the amount's 32-byte big-endian unsigned representation and
  generatedLoss's 32-byte big-endian unsigned representation. \<open>be_value\<close> reads a byte
  string as a big-endian number.
\<close>

definition uint256_be :: "nat \<Rightarrow> byte list" where
  "uint256_be n = map (\<lambda>i. word_of_nat (n div 256 ^ (31 - i))) [0..<32]"

definition be_value :: "byte list \<Rightarrow> nat" where
  "be_value bs = foldl (\<lambda>acc b. 256 * acc + unat b) 0 bs"

definition encodeLeafInput :: "hex \<Rightarrow> nat \<Rightarrow> nat \<Rightarrow> byte list" where
  "encodeLeafInput address amount generatedLoss =
     hexToBytes address @ uint256_be amount @ uint256_be generatedLoss"

subsection \<open>The leaf of generate-claims.mjs\<close>

text \<open>
  \<^verbatim>\<open>
  // 2) Build Merkle tree (leaf = keccak256(abi.encode(address,uint256,uint256)))
  const tree = StandardMerkleTree.of(entries, ["address", "uint256", "uint256"]);
  \<close>
  \<^verbatim>\<open>StandardMerkleTree\<close> is imported from the npm package @openzeppelin/merkle-tree,
  which is not under \<^verbatim>\<open>src/\<close>. Its leaf hash, as the library documents it, is
  \<^verbatim>\<open>keccak256(keccak256(abi.encode(types, values)))\<close>; the script's comment names the
  inner hash. The standard ABI encoding of (address, uint256, uint256) is three words
  of 32 bytes: the address padded on the left with 12 zero bytes, then the two
  integers.
\<close>

definition abiEncode_address_uint256_uint256 :: "hex \<Rightarrow> nat \<Rightarrow> nat \<Rightarrow> byte list" where
  "abiEncode_address_uint256_uint256 address amount generatedLoss =
     replicate 12 0 @ hexToBytes address @ uint256_be amount @ uint256_be generatedLoss"

definition standardLeafHash :: "keccak \<Rightarrow> hex \<Rightarrow> nat \<Rightarrow> nat \<Rightarrow> hex" where
  "standardLeafHash K address amount generatedLoss =
     hex64 (unat (K (uint256_be (unat (K (abiEncode_address_uint256_uint256 address amount
       generatedLoss))))))"

subsection \<open>The verifier\<close>

text \<open>
  Modelled from the spec: the verifier is the on-chain contract, which is not in this
  repository. Section 8 of the specification: \<^verbatim>\<open>verify\<close> repeatedly applies
  \<^verbatim>\<open>combine\<close> up the proof path, starting from the leaf, and compares the result
  with the root.
\<close>

fun processProof :: "keccak \<Rightarrow> hex \<Rightarrow> hex list \<Rightarrow> error + hex" where
  "processProof K computed [] = Inr computed"
| "processProof K computed (p # ps) =
     (case hashPair K computed p of
        Inl e \<Rightarrow> Inl e
      | Inr h \<Rightarrow> processProof K h ps)"

definition verify :: "keccak \<Rightarrow> hex \<Rightarrow> hex list \<Rightarrow> hex \<Rightarrow> bool" where
  "verify K leaf proof r = (processProof K leaf proof = Inr r)"

subsection \<open>The specification's sorted-pair combine\<close>

text \<open>
  Section 4.4 of the specification: \<^verbatim>\<open>combine(a,b) = hash(encodePairInput(min(a,b),
  max(a,b)))\<close>, where min and max compare the two 32-byte values byte by byte. This is
  the specification's wording, to be compared with \<open>hashPair\<close>, which compares
  lowercased hex strings.
\<close>

definition bytes_min :: "byte list \<Rightarrow> byte list \<Rightarrow> byte list" where
  "bytes_min x y = (if bytes_lt y x then y else x)"

definition bytes_max :: "byte list \<Rightarrow> byte list \<Rightarrow> byte list" where
  "bytes_max x y = (if bytes_lt y x then x else y)"

definition combine_spec :: "keccak \<Rightarrow> hex \<Rightarrow> hex \<Rightarrow> hex" where
  "combine_spec K a b =
     hex64 (unat (K (bytes_min (hexToBytes a) (hexToBytes b) @
                     bytes_max (hexToBytes a) (hexToBytes b))))"

subsection \<open>Sample data\<close>

text \<open>
  Closed instances of the theorems below need a concrete function in the place of the
  hash parameter. \<open>sampleHash\<close> is such a function: its digest is the number of
  bytes hashed, so it separates byte strings of different lengths, which is all that
  the instances use.
\<close>

definition sampleHash :: keccak where
  "sampleHash bs = word_of_nat (length bs)"

definition hashA :: hex where
  "hashA = ''0x00000000000000000000000000000000000000000000000000000000000000aB''"

definition hashB :: hex where
  "hashB = ''0x000000000000000000000000000000000000000000000000000000000000009f''"

definition hashC :: hex where
  "hashC = ''0xFfffffffffffffffffffffffffffffffffffffffffffffffffffffffffffff01''"

definition hashD :: hex where
  "hashD = ''0x1111111111111111111111111111111111111111111111111111111111111111''"

definition addrA :: hex where
  "addrA = ''0x00000000000000000000000000000000000000a1''"

subsection \<open>Auxiliary definitions: siblings, proof paths and linked layers\<close>

text \<open>
  Three definitions the proofs use. \<open>sibling\<close> is the value one pass of
  \<^verbatim>\<open>getProof\<close>'s loop pushes; \<open>path\<close> is the loop as a recursion over the list of
  layers (lemma \<open>getProof_loop_path\<close> proves them equal); \<open>linked\<close> says that every
  layer but the last has more than one element and that \<^verbatim>\<open>buildTree\<close>'s inner loop
  maps it to the next layer, and that the last layer has at most one element.
\<close>

definition sibling :: "hex list \<Rightarrow> nat \<Rightarrow> hex option" where
  "sibling layer idx =
     (let isRightNode = (idx mod 2 = 1);
          pairIndex = (if isRightNode then idx - 1 else idx + 1)
      in if pairIndex < length layer then js_get layer pairIndex else js_get layer idx)"

fun path :: "hex list list \<Rightarrow> nat \<Rightarrow> hex option list" where
  "path (l # l' # ls) idx = sibling l idx # path (l' # ls) (idx div 2)"
| "path [l] idx = []"
| "path [] idx = []"

fun linked :: "keccak \<Rightarrow> hex list list \<Rightarrow> bool" where
  "linked K (l # l' # ls) =
     (1 < length l \<and> buildTree_for K l 0 [] = Inr l' \<and> linked K (l' # ls))"
| "linked K [l] = (length l \<le> 1)"
| "linked K [] = False"

text \<open>
  \<open>occursInLayer0\<close>: the leaf occurs in layer 0 (there is one, and it holds the leaf).
  \<open>readAt\<close> is the value of one read of \<^verbatim>\<open>getProof\<close>'s loop as \<open>getProof_reads\<close>
  lists them, \<open>readInBounds\<close> says that the read and the indices of its pass are
  within the arrays.
\<close>

definition occursInLayer0 :: "hex \<Rightarrow> hex list list \<Rightarrow> bool" where
  "occursInLayer0 leaf ls = (case ls of [] \<Rightarrow> False | layer0 # _ \<Rightarrow> leaf \<in> set layer0)"

definition readAt :: "hex list list \<Rightarrow> nat \<times> nat \<times> nat \<Rightarrow> hex option" where
  "readAt ls r = (case r of (level, idx, pos) \<Rightarrow> js_get (ls ! level) pos)"

definition readInBounds :: "hex list list \<Rightarrow> nat \<times> nat \<times> nat \<Rightarrow> bool" where
  "readInBounds ls r =
     (case r of (level, idx, pos) \<Rightarrow>
        level + 1 < length ls \<and> idx < length (ls ! level) \<and> pos < length (ls ! level) \<and>
        (pos = idx \<or> pos + 1 = idx \<or> pos = idx + 1) \<and>
        idx div 2 < length (ls ! (level + 1)))"

section \<open>Properties\<close>

subsection \<open>Hex strings and the pair hash\<close>

lemma code_lt_256: "code c < 256"
  by (simp add: code_def)

lemma code_toLowerChar:
  "code (toLowerChar c) = (if 65 \<le> code c \<and> code c \<le> 90 then code c + 32 else code c)"
  by (simp add: toLowerChar_def code_def)

lemma code_inj: "(code c = code d) = (c = d)"
  by (simp add: code_def)

lemma hexValue_lt_16: "hexValue c < 16"
  by (auto simp: hexValue_def)

lemma hex_lower_cases:
  assumes "isHexChar c"
  shows "(48 \<le> code (toLowerChar c) \<and> code (toLowerChar c) \<le> 57 \<and>
            hexValue c + 48 = code (toLowerChar c)) \<or>
         (97 \<le> code (toLowerChar c) \<and> code (toLowerChar c) \<le> 102 \<and>
            hexValue c + 87 = code (toLowerChar c))"
proof -
  from assms consider "48 \<le> code c \<and> code c \<le> 57" | "97 \<le> code c \<and> code c \<le> 102"
    | "65 \<le> code c \<and> code c \<le> 70"
    unfolding isHexChar_def by blast
  then show ?thesis
  proof cases
    case 1 then show ?thesis by (simp add: code_toLowerChar hexValue_def)
  next
    case 2 then show ?thesis by (simp add: code_toLowerChar hexValue_def)
  next
    case 3 then show ?thesis by (simp add: code_toLowerChar hexValue_def)
  qed
qed

lemma hex_lower_less:
  assumes "isHexChar c" "isHexChar d"
  shows "(code (toLowerChar c) < code (toLowerChar d)) = (hexValue c < hexValue d)"
  using hex_lower_cases [OF assms(1)] hex_lower_cases [OF assms(2)] by arith

lemma hex_lower_eq:
  assumes "isHexChar c" "isHexChar d"
  shows "(toLowerChar c = toLowerChar d) = (hexValue c = hexValue d)"
  unfolding code_inj [symmetric]
  using hex_lower_cases [OF assms(1)] hex_lower_cases [OF assms(2)] by arith

lemma unat_byte_of_nibbles:
  "a < 16 \<Longrightarrow> b < 16 \<Longrightarrow> unat (word_of_nat (16 * a + b) :: byte) = 16 * a + b"
proof -
  assume "a < 16" "b < 16"
  then have "16 * a + b < 256" by arith
  then show ?thesis by (simp only: unat_of_nat) simp
qed

lemma byte_of_nibbles_less:
  assumes "a < 16" "b < 16" "c < 16" "d < 16"
  shows "((word_of_nat (16 * a + b) :: byte) < word_of_nat (16 * c + d)) =
           (a < c \<or> (a = c \<and> b < d))"
proof -
  have "((word_of_nat (16 * a + b) :: byte) < word_of_nat (16 * c + d)) =
          (16 * a + b < 16 * c + d)"
    by (simp only: word_less_nat_alt unat_byte_of_nibbles assms)
  also have "\<dots> = (a < c \<or> (a = c \<and> b < d))"
    using assms by linarith
  finally show ?thesis .
qed

lemma byte_of_nibbles_eq:
  assumes "a < 16" "b < 16" "c < 16" "d < 16"
  shows "((word_of_nat (16 * a + b) :: byte) = word_of_nat (16 * c + d)) = (a = c \<and> b = d)"
proof -
  have "((word_of_nat (16 * a + b) :: byte) = word_of_nat (16 * c + d)) =
          (16 * a + b = 16 * c + d)"
    by (simp only: word_unat_eq_iff [where 'a = 8] unat_byte_of_nibbles assms)
  also have "\<dots> = (a = c \<and> b = d)"
  proof
    assume e: "16 * a + b = 16 * c + d"
    have "(16 * a + b) div 16 = a" "(16 * c + d) div 16 = c" using assms by simp_all
    with e have "a = c" by simp
    with e show "a = c \<and> b = d" by simp
  qed simp
  finally show ?thesis .
qed

lemma hexByte_less:
  "(hexByte a b < hexByte c d) =
     (hexValue a < hexValue c \<or> (hexValue a = hexValue c \<and> hexValue b < hexValue d))"
  unfolding hexByte_def by (rule byte_of_nibbles_less) (rule hexValue_lt_16)+

lemma hexByte_eq:
  "(hexByte a b = hexByte c d) = (hexValue a = hexValue c \<and> hexValue b = hexValue d)"
  unfolding hexByte_def by (rule byte_of_nibbles_eq) (rule hexValue_lt_16)+

lemma even_length_split:
  assumes "length xs = 2 * Suc n"
  obtains a b xs' where "xs = a # b # xs'" "length xs' = 2 * n"
proof -
  from assms obtain a r where 1: "xs = a # r" by (cases xs) auto
  with assms obtain b xs' where 2: "r = b # xs'" by (cases r) auto
  from assms 1 2 have "length xs' = 2 * n" by simp
  with 1 2 that show ?thesis by blast
qed

lemma js_lt_lower_hexPairs:
  "length xs = 2 * n \<Longrightarrow> length ys = 2 * n \<Longrightarrow>
   list_all isHexChar xs \<Longrightarrow> list_all isHexChar ys \<Longrightarrow>
   js_lt (map toLowerChar xs) (map toLowerChar ys) = bytes_lt (hexPairs xs) (hexPairs ys)"
proof (induction n arbitrary: xs ys)
  case 0
  then show ?case by simp
next
  case (Suc n)
  from Suc.prems(1) obtain a b xs' where xs: "xs = a # b # xs'" "length xs' = 2 * n"
    by (rule even_length_split)
  from Suc.prems(2) obtain c d ys' where ys: "ys = c # d # ys'" "length ys' = 2 * n"
    by (rule even_length_split)
  from Suc.prems(3,4) xs ys have hex: "isHexChar a" "isHexChar b" "isHexChar c" "isHexChar d"
    and rest: "list_all isHexChar xs'" "list_all isHexChar ys'"
    by simp_all
  have IH: "js_lt (map toLowerChar xs') (map toLowerChar ys') =
              bytes_lt (hexPairs xs') (hexPairs ys')"
    using Suc.IH xs(2) ys(2) rest by blast
  show ?case
    unfolding xs(1) ys(1)
    by (simp add: IH hex_lower_less hex_lower_eq hex hexByte_less hexByte_eq) blast
qed

lemma lower_eq_hexPairs:
  "length xs = 2 * n \<Longrightarrow> length ys = 2 * n \<Longrightarrow>
   list_all isHexChar xs \<Longrightarrow> list_all isHexChar ys \<Longrightarrow>
   (map toLowerChar xs = map toLowerChar ys) = (hexPairs xs = hexPairs ys)"
proof (induction n arbitrary: xs ys)
  case 0
  then show ?case by simp
next
  case (Suc n)
  from Suc.prems(1) obtain a b xs' where xs: "xs = a # b # xs'" "length xs' = 2 * n"
    by (rule even_length_split)
  from Suc.prems(2) obtain c d ys' where ys: "ys = c # d # ys'" "length ys' = 2 * n"
    by (rule even_length_split)
  from Suc.prems(3,4) xs ys have hex: "isHexChar a" "isHexChar b" "isHexChar c" "isHexChar d"
    and rest: "list_all isHexChar xs'" "list_all isHexChar ys'"
    by simp_all
  have IH: "(map toLowerChar xs' = map toLowerChar ys') = (hexPairs xs' = hexPairs ys')"
    using Suc.IH xs(2) ys(2) rest by blast
  show ?case
    unfolding xs(1) ys(1)
    by (simp add: IH hex_lower_eq hex hexByte_eq)
qed

lemma hexPairs_append:
  "length xs = 2 * n \<Longrightarrow> hexPairs (xs @ ys) = hexPairs xs @ hexPairs ys"
proof (induction n arbitrary: xs)
  case 0
  then show ?case by simp
next
  case (Suc n)
  from Suc.prems obtain a b xs' where xs: "xs = a # b # xs'" "length xs' = 2 * n"
    by (rule even_length_split)
  then show ?case using Suc.IH by simp
qed

lemma length_hexPairs: "length xs = 2 * n \<Longrightarrow> length (hexPairs xs) = n"
proof (induction n arbitrary: xs)
  case 0
  then show ?case by simp
next
  case (Suc n)
  from Suc.prems obtain a b xs' where xs: "xs = a # b # xs'" "length xs' = 2 * n"
    by (rule even_length_split)
  then show ?case using Suc.IH by simp
qed

lemma js_lt_asym: "js_lt x y \<Longrightarrow> \<not> js_lt y x"
  by (induction x y rule: js_lt.induct) auto

lemma js_lt_total: "\<not> js_lt x y \<Longrightarrow> \<not> js_lt y x \<Longrightarrow> x = y"
proof (induction x y rule: js_lt.induct)
  case (4 x xs y ys)
  from "4.prems" have "code x = code y" by auto
  then have "x = y" by (simp add: code_inj)
  with 4 show ?case by auto
qed auto

lemma isBytes32_digits:
  assumes "isBytes32 v"
  shows "length (drop 2 v) = 2 * 32" "list_all isHexChar (drop 2 v)" "v = ''0x'' @ drop 2 v"
proof -
  from assms show "length (drop 2 v) = 2 * 32" "list_all isHexChar (drop 2 v)"
    by (simp_all add: isBytes32_def)
  from assms have "take 2 v = ''0x''" by (simp add: isBytes32_def)
  then show "v = ''0x'' @ drop 2 v" by (metis append_take_drop_id)
qed

lemma hexToBytes_bytes32: "isBytes32 v \<Longrightarrow> hexToBytes v = hexPairs (drop 2 v)"
  by (simp add: hexToBytes_def isBytes32_def)

lemma length_hexToBytes_bytes32: "isBytes32 v \<Longrightarrow> length (hexToBytes v) = 32"
  using isBytes32_digits(1) [of v] length_hexPairs [of "drop 2 v" 32]
  by (simp add: hexToBytes_bytes32)

lemma hexToBytes_packed_pair:
  assumes "isBytes32 l" "isBytes32 r"
  shows "hexToBytes (''0x'' @ drop 2 l @ drop 2 r) = hexToBytes l @ hexToBytes r"
proof -
  have "hexToBytes (''0x'' @ drop 2 l @ drop 2 r) = hexPairs (drop 2 l @ drop 2 r)"
    using isBytes32_digits(1) [OF assms(1)] isBytes32_digits(1) [OF assms(2)]
    by (simp add: hexToBytes_def)
  also have "\<dots> = hexPairs (drop 2 l) @ hexPairs (drop 2 r)"
    by (rule hexPairs_append [OF isBytes32_digits(1) [OF assms(1)]])
  finally show ?thesis by (simp add: hexToBytes_bytes32 assms)
qed

lemma hexToBytes_packed_pair':
  assumes "isBytes32 l" "isBytes32 r"
  shows "hexToBytes (CHR ''0'' # CHR ''x'' # drop 2 l @ drop 2 r) = hexToBytes l @ hexToBytes r"
  using hexToBytes_packed_pair [OF assms] by simp

lemma js_lt_prefix: "js_lt (p @ xs) (p @ ys) = js_lt xs ys"
  by (induction p) auto

lemma toLowerCase_bytes32:
  "isBytes32 v \<Longrightarrow> toLowerCase v = ''0x'' @ map toLowerChar (drop 2 v)"
proof -
  assume v: "isBytes32 v"
  have "toLowerCase v = toLowerCase (''0x'' @ drop 2 v)"
    using isBytes32_digits(3) [OF v] by simp
  also have "\<dots> = map toLowerChar ''0x'' @ map toLowerChar (drop 2 v)"
    by (simp only: toLowerCase_def map_append)
  also have "map toLowerChar ''0x'' = ''0x''"
    by (simp add: toLowerChar_def code_def)
  finally show ?thesis .
qed

lemma lower_lt_is_bytes_lt:
  assumes "isBytes32 a" "isBytes32 b"
  shows "js_lt (toLowerCase a) (toLowerCase b) = bytes_lt (hexToBytes a) (hexToBytes b)"
  using js_lt_lower_hexPairs [OF isBytes32_digits(1) [OF assms(1)] isBytes32_digits(1) [OF assms(2)]
      isBytes32_digits(2) [OF assms(1)] isBytes32_digits(2) [OF assms(2)]]
  by (simp add: toLowerCase_bytes32 assms hexToBytes_bytes32 js_lt_prefix)

lemma lower_eq_is_bytes_eq:
  assumes "isBytes32 a" "isBytes32 b"
  shows "(toLowerCase a = toLowerCase b) = (hexToBytes a = hexToBytes b)"
  using lower_eq_hexPairs [OF isBytes32_digits(1) [OF assms(1)] isBytes32_digits(1) [OF assms(2)]
      isBytes32_digits(2) [OF assms(1)] isBytes32_digits(2) [OF assms(2)]]
  by (simp add: toLowerCase_bytes32 assms hexToBytes_bytes32)

lemma hashPair_bytes32:
  assumes "isBytes32 a" "isBytes32 b"
  shows "hashPair K a b =
           Inr (hex64 (unat (K (if js_lt (toLowerCase a) (toLowerCase b)
                                then hexToBytes a @ hexToBytes b
                                else hexToBytes b @ hexToBytes a))))"
  by (simp add: hashPair_def encodePacked_bytes32_bytes32_def keccak256_def assms
      hexToBytes_packed_pair')

lemma hashPair_invalid:
  "\<not> (isBytes32 a \<and> isBytes32 b) \<Longrightarrow> hashPair K a b = Inl BytesSizeMismatch"
  by (auto simp: hashPair_def encodePacked_bytes32_bytes32_def)

lemma hashPair_comm: "hashPair K a b = hashPair K b a"
proof (cases "isBytes32 a \<and> isBytes32 b")
  case False
  then show ?thesis by (simp add: hashPair_invalid conj_commute)
next
  case True
  then have a: "isBytes32 a" and b: "isBytes32 b" by simp_all
  consider "js_lt (toLowerCase a) (toLowerCase b)" | "js_lt (toLowerCase b) (toLowerCase a)"
    | "toLowerCase a = toLowerCase b"
    using js_lt_total by blast
  then show ?thesis
  proof cases
    case 1
    then show ?thesis using js_lt_asym [OF 1] by (simp add: hashPair_bytes32 a b)
  next
    case 2
    then show ?thesis using js_lt_asym [OF 2] by (simp add: hashPair_bytes32 a b)
  next
    case 3
    then have "hexToBytes a = hexToBytes b" by (simp add: lower_eq_is_bytes_eq a b)
    then show ?thesis by (simp add: hashPair_bytes32 a b)
  qed
qed

lemma isHexChar_hexDigit: "isHexChar (hexDigit n)"
proof -
  have all: "list_all isHexChar ''0123456789abcdef''"
    by (simp add: isHexChar_def code_def)
  have "n mod 16 < length ''0123456789abcdef''" by simp
  then have "''0123456789abcdef'' ! (n mod 16) \<in> set ''0123456789abcdef''"
    by (rule nth_mem)
  with all show ?thesis unfolding hexDigit_def list_all_iff by blast
qed

lemma isBytes32_hex64: "isBytes32 (hex64 n)"
  by (simp add: isBytes32_def hex64_def list_all_iff isHexChar_hexDigit)

lemma hashPair_result: "hashPair K a b = Inr h \<Longrightarrow> isBytes32 h"
  by (auto simp: hashPair_def keccak256_def isBytes32_hex64 Let_def split: sum.splits)

lemma hashPair_succeeds:
  "isBytes32 a \<Longrightarrow> isBytes32 b \<Longrightarrow> \<exists>h. hashPair K a b = Inr h"
  by (simp add: hashPair_bytes32)

lemma bytes_lt_asym: "bytes_lt x y \<Longrightarrow> \<not> bytes_lt y x"
  by (induction x y rule: bytes_lt.induct) auto

lemma bytes_lt_total: "\<not> bytes_lt x y \<Longrightarrow> \<not> bytes_lt y x \<Longrightarrow> x = y"
  by (induction x y rule: bytes_lt.induct) auto

lemma hashPair_combine_spec:
  assumes "isBytes32 a" "isBytes32 b"
  shows "hashPair K a b = Inr (combine_spec K a b)"
proof -
  let ?x = "hexToBytes a" and ?y = "hexToBytes b"
  have lt: "js_lt (toLowerCase a) (toLowerCase b) = bytes_lt ?x ?y"
    by (rule lower_lt_is_bytes_lt [OF assms])
  consider "bytes_lt ?x ?y" | "bytes_lt ?y ?x" | "?x = ?y"
    using bytes_lt_total by blast
  then show ?thesis
  proof cases
    case 1
    with bytes_lt_asym [OF 1] show ?thesis
      by (simp add: hashPair_bytes32 assms lt combine_spec_def bytes_min_def bytes_max_def)
  next
    case 2
    with bytes_lt_asym [OF 2] show ?thesis
      by (simp add: hashPair_bytes32 assms lt combine_spec_def bytes_min_def bytes_max_def)
  next
    case 3
    then show ?thesis
      by (simp add: hashPair_bytes32 assms lt combine_spec_def bytes_min_def bytes_max_def)
  qed
qed

text \<open>
  Claim C3. For all 32-byte hashes \<open>a\<close> and \<open>b\<close>, \<open>hashPair K a b\<close> is the Keccak-256
  digest of the 64-byte concatenation of the byte-lexicographic minimum of the two values
  followed by the maximum: the comparison of the lowercased hex strings that the code
  makes coincides with the byte-lexicographic order of the 32-byte values. Hence
  \<open>hashPair K a b = hashPair K b a\<close>.
\<close>

theorem hashPair_sorted_pair:
  assumes "isBytes32 a" and "isBytes32 b"
  shows "hashPair K a b = Inr (combine_spec K a b) \<and>
         length (bytes_min (hexToBytes a) (hexToBytes b) @
                 bytes_max (hexToBytes a) (hexToBytes b)) = 64 \<and>
         js_lt (toLowerCase a) (toLowerCase b) = bytes_lt (hexToBytes a) (hexToBytes b) \<and>
         hashPair K a b = hashPair K b a"
proof (intro conjI)
  show "hashPair K a b = Inr (combine_spec K a b)"
    by (rule hashPair_combine_spec [OF assms])
  show "length (bytes_min (hexToBytes a) (hexToBytes b) @
                bytes_max (hexToBytes a) (hexToBytes b)) = 64"
    by (simp add: bytes_min_def bytes_max_def length_hexToBytes_bytes32 assms)
  show "js_lt (toLowerCase a) (toLowerCase b) = bytes_lt (hexToBytes a) (hexToBytes b)"
    by (rule lower_lt_is_bytes_lt [OF assms])
  show "hashPair K a b = hashPair K b a"
    by (rule hashPair_comm)
qed

lemma isBytes32_hashA: "isBytes32 hashA"
  by (simp add: isBytes32_def hashA_def isHexChar_def code_def)

lemma isBytes32_hashB: "isBytes32 hashB"
  by (simp add: isBytes32_def hashB_def isHexChar_def code_def)

theorem hashPair_sorted_pair_witness:
  "isBytes32 hashA \<and> isBytes32 hashB \<and>
   hashPair sampleHash hashA hashB = Inr (combine_spec sampleHash hashA hashB) \<and>
   length (bytes_min (hexToBytes hashA) (hexToBytes hashB) @
           bytes_max (hexToBytes hashA) (hexToBytes hashB)) = 64 \<and>
   js_lt (toLowerCase hashA) (toLowerCase hashB) = bytes_lt (hexToBytes hashA) (hexToBytes hashB) \<and>
   hashPair sampleHash hashA hashB = hashPair sampleHash hashB hashA"
  using hashPair_sorted_pair [OF isBytes32_hashA isBytes32_hashB, of sampleHash]
    isBytes32_hashA isBytes32_hashB by blast

subsection \<open>The tree and its proofs\<close>

lemma path_short: "length ls \<le> 1 \<Longrightarrow> path ls idx = []"
  by (induction ls idx rule: path.induct) simp_all

lemma getProof_loop_path:
  "getProof_loop ls level idx acc = acc @ path (drop level ls) idx"
proof (induction ls level idx acc rule: getProof_loop.induct)
  case (1 ls level idx acc)
  show ?case
  proof (cases "int level < int (length ls) - 1")
    case True
    then have lt: "Suc level < length ls" by simp
    then have d: "drop level ls = ls ! level # ls ! Suc level # drop (Suc (Suc level)) ls"
      by (simp add: Cons_nth_drop_Suc)
    have d2: "drop (level + 1) ls = ls ! Suc level # drop (Suc (Suc level)) ls"
      using lt by (simp add: Cons_nth_drop_Suc)
    have "getProof_loop ls level idx acc =
            getProof_loop ls (level + 1) (idx div 2) (acc @ [sibling (ls ! level) idx])"
      unfolding sibling_def Let_def
      by (subst getProof_loop.simps) (simp only: True if_True Let_def)
    also have "\<dots> = (acc @ [sibling (ls ! level) idx]) @ path (drop (level + 1) ls) (idx div 2)"
      unfolding sibling_def Let_def by (rule "1.IH" [OF True refl refl refl refl])
    also have "\<dots> = acc @ path (drop level ls) idx"
      by (simp only: d d2 path.simps append_assoc append_Cons append_Nil)
    finally show ?thesis .
  next
    case False
    then have "length ls \<le> Suc level" by simp
    then have "length (drop level ls) \<le> 1" by simp
    then have "path (drop level ls) idx = []" by (rule path_short)
    with False show ?thesis by (subst getProof_loop.simps) simp
  qed
qed

lemma buildTree_for_step:
  assumes "i < length level" "buildTree_for K level i nxt = Inr out"
  obtains h where
    "hashPair K (level ! i) (if i + 1 < length level then level ! (i + 1) else level ! i) = Inr h"
    "buildTree_for K level (i + 2) (nxt @ [h]) = Inr out"
  using assms by (subst (asm) buildTree_for.simps) (simp add: Let_def split: sum.splits)

lemma buildTree_for_stop:
  assumes "\<not> i < length level"
  shows "buildTree_for K level i nxt = Inr nxt"
  using assms by (subst buildTree_for.simps) simp

lemma buildTree_for_prefix:
  "buildTree_for K level i nxt = Inr out \<Longrightarrow> take (length nxt) out = nxt"
proof (induction K level i nxt arbitrary: out rule: buildTree_for.induct)
  case (1 K level i nxt)
  show ?case
  proof (cases "i < length level")
    case True
    from True "1.prems" obtain h where
      h: "hashPair K (level ! i) (if i + 1 < length level then level ! (i + 1) else level ! i) = Inr h"
      and r: "buildTree_for K level (i + 2) (nxt @ [h]) = Inr out"
      by (rule buildTree_for_step)
    from "1.IH" [OF True refl refl h r] have "take (length (nxt @ [h])) out = nxt @ [h]" .
    then have "take (length nxt) (take (length (nxt @ [h])) out) = take (length nxt) (nxt @ [h])"
      by simp
    then show ?thesis by (simp add: min_def)
  next
    case False
    with "1.prems" show ?thesis by (simp add: buildTree_for_stop)
  qed
qed

lemma buildTree_for_nth:
  "buildTree_for K level i nxt = Inr out \<Longrightarrow> i + 2 * j < length level \<Longrightarrow>
   hashPair K (level ! (i + 2 * j))
     (if i + 2 * j + 1 < length level then level ! (i + 2 * j + 1) else level ! (i + 2 * j))
   = Inr (out ! (length nxt + j))"
proof (induction K level i nxt arbitrary: out j rule: buildTree_for.induct)
  case (1 K level i nxt)
  from "1.prems"(2) have True: "i < length level" by simp
  from True "1.prems"(1) obtain h where
    h: "hashPair K (level ! i) (if i + 1 < length level then level ! (i + 1) else level ! i) = Inr h"
    and r: "buildTree_for K level (i + 2) (nxt @ [h]) = Inr out"
    by (rule buildTree_for_step)
  show ?case
  proof (cases j)
    case 0
    from buildTree_for_prefix [OF r] have "take (Suc (length nxt)) out = nxt @ [h]" by simp
    then have "take (Suc (length nxt)) out ! length nxt = (nxt @ [h]) ! length nxt" by simp
    then have "out ! length nxt = h" by simp
    with h 0 show ?thesis by (simp split: if_splits)
  next
    case (Suc j')
    with "1.prems"(2) have lt: "i + 2 + 2 * j' < length level" by simp
    have e: "i + 2 + 2 * j' = i + 2 * j" "length (nxt @ [h]) + j' = length nxt + j"
      using Suc by simp_all
    from "1.IH" [OF True refl refl h r lt] show ?thesis unfolding e .
  qed
qed

lemma buildTree_for_succeeds:
  "list_all isBytes32 level \<Longrightarrow> \<exists>out. buildTree_for K level i nxt = Inr out"
proof (induction K level i nxt rule: buildTree_for.induct)
  case (1 K level i nxt)
  show ?case
  proof (cases "i < length level")
    case True
    let ?right = "if i + 1 < length level then level ! (i + 1) else level ! i"
    from "1.prems" True have "isBytes32 (level ! i)" "isBytes32 ?right"
      by (simp_all add: list_all_length)
    then obtain h where h: "hashPair K (level ! i) ?right = Inr h"
      using hashPair_succeeds by blast
    from "1.IH" [OF True refl refl h "1.prems"] obtain out
      where "buildTree_for K level (i + 2) (nxt @ [h]) = Inr out" by blast
    with True h show ?thesis by (subst buildTree_for.simps) (simp add: Let_def)
  next
    case False
    then show ?thesis by (simp add: buildTree_for_stop)
  qed
qed

lemma buildTree_for_result:
  "buildTree_for K level i nxt = Inr out \<Longrightarrow> list_all isBytes32 nxt \<Longrightarrow>
     list_all isBytes32 out"
proof (induction K level i nxt arbitrary: out rule: buildTree_for.induct)
  case (1 K level i nxt)
  show ?case
  proof (cases "i < length level")
    case True
    from True "1.prems"(1) obtain h where
      h: "hashPair K (level ! i) (if i + 1 < length level then level ! (i + 1) else level ! i) = Inr h"
      and r: "buildTree_for K level (i + 2) (nxt @ [h]) = Inr out"
      by (rule buildTree_for_step)
    from hashPair_result [OF h] "1.prems"(2) have "list_all isBytes32 (nxt @ [h])" by simp
    from "1.IH" [OF True refl refl h r this] show ?thesis .
  next
    case False
    with "1.prems" show ?thesis by (simp add: buildTree_for_stop)
  qed
qed

lemma buildTree_while_linked:
  "buildTree_while K level ls = Inr out \<Longrightarrow> \<exists>rest. out = ls @ rest \<and> linked K (level # rest)"
proof (induction K level ls arbitrary: out rule: buildTree_while.induct)
  case (1 K level ls)
  show ?case
  proof (cases "1 < length level")
    case True
    with "1.prems" obtain nxt where
      f: "buildTree_for K level 0 [] = Inr nxt"
      and w: "buildTree_while K nxt (ls @ [nxt]) = Inr out"
      by (subst (asm) buildTree_while.simps) (simp split: sum.splits)
    from "1.IH" [OF True f w] obtain rest' where
      "out = (ls @ [nxt]) @ rest'" "linked K (nxt # rest')" by blast
    with True f have "out = ls @ (nxt # rest') \<and> linked K (level # nxt # rest')" by simp
    then show ?thesis by blast
  next
    case False
    with "1.prems" have "out = ls" by (subst (asm) buildTree_while.simps) simp
    with False show ?thesis by simp
  qed
qed

lemma buildTree_while_succeeds:
  "list_all isBytes32 level \<Longrightarrow> \<exists>out. buildTree_while K level ls = Inr out"
proof (induction K level ls rule: buildTree_while.induct)
  case (1 K level ls)
  show ?case
  proof (cases "1 < length level")
    case True
    from buildTree_for_succeeds [OF "1.prems"] obtain nxt
      where f: "buildTree_for K level 0 [] = Inr nxt" by blast
    from buildTree_for_result [OF f] have "list_all isBytes32 nxt" by simp
    from "1.IH" [OF True f this] obtain out
      where "buildTree_while K nxt (ls @ [nxt]) = Inr out" by blast
    with True f show ?thesis by (subst buildTree_while.simps) simp
  next
    case False
    then show ?thesis by (subst buildTree_while.simps) simp
  qed
qed

lemma linked_length_next:
  assumes "buildTree_for K l 0 [] = Inr l'"
  shows "length l' = (length l + 1) div 2"
  using length_buildTree_for [OF assms] by simp

lemma linked_last_singleton:
  "linked K (l # rest) \<Longrightarrow> l \<noteq> [] \<Longrightarrow> length (last (l # rest)) = 1"
proof (induction rest arbitrary: l)
  case Nil
  then show ?case by (cases l) auto
next
  case (Cons l' rest)
  from Cons.prems have f: "buildTree_for K l 0 [] = Inr l'" and lk: "linked K (l' # rest)"
    and len: "1 < length l" by simp_all
  from linked_length_next [OF f] len have "l' \<noteq> []" by auto
  from Cons.IH [OF lk this] show ?case by simp
qed

lemma sibling_hash:
  assumes f: "buildTree_for K l 0 [] = Inr l'" and idx: "idx < length l"
  shows "\<exists>s. sibling l idx = Some s \<and> hashPair K (l ! idx) s = Inr (l' ! (idx div 2)) \<and>
             idx div 2 < length l'"
proof -
  have bound: "idx div 2 < length l'"
    using linked_length_next [OF f] idx by simp
  show ?thesis
  proof (cases "idx mod 2 = 1")
    case True
    then have e: "0 + 2 * (idx div 2) = idx - 1" and e1: "idx - 1 + 1 = idx" by arith+
    from idx e have lt: "0 + 2 * (idx div 2) < length l" by simp
    from buildTree_for_nth [OF f lt] idx
    have "hashPair K (l ! (idx - 1)) (l ! idx) = Inr (l' ! (idx div 2))"
      unfolding e e1 by simp
    then have "hashPair K (l ! idx) (l ! (idx - 1)) = Inr (l' ! (idx div 2))"
      by (simp add: hashPair_comm)
    moreover from idx have "idx - 1 < length l" by arith
    with True have "sibling l idx = Some (l ! (idx - 1))"
      by (simp add: sibling_def js_get_def Let_def)
    ultimately show ?thesis using bound by blast
  next
    case False
    then have e: "0 + 2 * (idx div 2) = idx" by arith
    from idx e have lt: "0 + 2 * (idx div 2) < length l" by simp
    from buildTree_for_nth [OF f lt]
    have h: "hashPair K (l ! idx) (if idx + 1 < length l then l ! (idx + 1) else l ! idx)
               = Inr (l' ! (idx div 2))"
      unfolding e by simp
    from False idx
    have "sibling l idx = Some (if idx + 1 < length l then l ! (idx + 1) else l ! idx)"
      by (simp add: sibling_def js_get_def Let_def)
    with h bound show ?thesis by blast
  qed
qed

lemma linked_round_trip:
  "linked K (l # rest) \<Longrightarrow> idx < length l \<Longrightarrow>
     \<exists>ps. path (l # rest) idx = map Some ps \<and> length ps = length rest \<and>
          processProof K (l ! idx) ps = Inr (last (l # rest) ! 0)"
proof (induction rest arbitrary: l idx)
  case Nil
  then have "idx = 0" by simp
  then show ?case by simp
next
  case (Cons l' rest)
  from Cons.prems have f: "buildTree_for K l 0 [] = Inr l'" and lk: "linked K (l' # rest)"
    by simp_all
  from sibling_hash [OF f Cons.prems(2)] obtain s where
    s: "sibling l idx = Some s" and h: "hashPair K (l ! idx) s = Inr (l' ! (idx div 2))"
    and b: "idx div 2 < length l'" by blast
  from Cons.IH [OF lk b] obtain ps where
    ps: "path (l' # rest) (idx div 2) = map Some ps" "length ps = length rest"
      "processProof K (l' ! (idx div 2)) ps = Inr (last (l' # rest) ! 0)" by blast
  have "path (l # l' # rest) idx = map Some (s # ps)" using s ps(1) by simp
  moreover have "length (s # ps) = length (l' # rest)" using ps(2) by simp
  moreover have "processProof K (l ! idx) (s # ps) = Inr (last (l # l' # rest) ! 0)"
    using h ps(3) by simp
  ultimately show ?case by blast
qed

lemma indexOf_ge: "- 1 \<le> indexOf xs x"
  by (induction xs) (auto simp: Let_def)

lemma indexOf_notin: "(indexOf xs x = - 1) = (x \<notin> set xs)"
proof (induction xs)
  case Nil
  show ?case by simp
next
  case (Cons y ys)
  from indexOf_ge [of ys x] have "indexOf ys x + 1 \<noteq> - 1" by arith
  with Cons show ?case by (auto simp: Let_def)
qed

lemma indexOf_first:
  "x \<in> set xs \<Longrightarrow>
     \<exists>i. indexOf xs x = int i \<and> i < length xs \<and> xs ! i = x \<and> (\<forall>j<i. xs ! j \<noteq> x)"
proof (induction xs)
  case Nil
  then show ?case by simp
next
  case (Cons y ys)
  show ?case
  proof (cases "y = x")
    case True
    then show ?thesis by simp
  next
    case False
    with Cons.prems have "x \<in> set ys" by simp
    from Cons.IH [OF this] obtain i where
      i: "indexOf ys x = int i" "i < length ys" "ys ! i = x" "\<forall>j<i. ys ! j \<noteq> x" by blast
    have "indexOf (y # ys) x = int (Suc i)" using False i(1) by (simp add: Let_def)
    moreover have "\<forall>j<Suc i. (y # ys) ! j \<noteq> x"
      using False i(4) by (auto simp: nth_Cons split: nat.splits)
    ultimately show ?thesis using i(2,3) by (intro exI [of _ "Suc i"]) simp
  qed
qed

lemma buildTree_empty: "buildTree K [] = Inl NoLeaves"
  by (simp add: buildTree_def)

lemma buildTree_Inr:
  assumes "buildTree K leaves = Inr t"
  shows "\<exists>rest. layers t = leaves # rest \<and> linked K (leaves # rest) \<and> leaves \<noteq> [] \<and>
           last (layers t) = [root t]"
proof -
  from assms have ne: "leaves \<noteq> []" by (auto simp: buildTree_def)
  with assms obtain ls where w: "buildTree_while K leaves [leaves] = Inr ls"
    and t: "t = \<lparr>root = ls ! (length ls - 1) ! 0, layers = ls\<rparr>"
    by (auto simp: buildTree_def Let_def split: sum.splits)
  from buildTree_while_linked [OF w] obtain rest where
    rest: "ls = [leaves] @ rest" "linked K (leaves # rest)" by blast
  then have ls: "ls = leaves # rest" by simp
  from linked_last_singleton [OF rest(2) ne] have "length (last ls) = 1" by (simp add: ls)
  then obtain r where r: "last ls = [r]" by (cases "last ls") auto
  have "ls ! (length ls - 1) = last ls" using ls by (simp add: last_conv_nth)
  with r t have "last (layers t) = [root t]" by simp
  with ls t rest(2) ne show ?thesis by simp
qed

lemma buildTree_succeeds:
  assumes "leaves \<noteq> []" "list_all isBytes32 leaves"
  shows "\<exists>t. buildTree K leaves = Inr t"
proof -
  from buildTree_while_succeeds [OF assms(2)] obtain ls
    where "buildTree_while K leaves [leaves] = Inr ls" by blast
  with assms(1) show ?thesis by (simp add: buildTree_def)
qed

lemma getProof_found:
  assumes "leaf \<in> set l"
  shows "\<exists>i. i < length l \<and> l ! i = leaf \<and> (\<forall>j<i. l ! j \<noteq> leaf) \<and>
             getProof leaf (l # rest) = Inr (path (l # rest) i)"
proof -
  from indexOf_first [OF assms] obtain i where
    i: "indexOf l leaf = int i" "i < length l" "l ! i = leaf" "\<forall>j<i. l ! j \<noteq> leaf" by blast
  have "getProof leaf (l # rest) = Inr (getProof_loop (l # rest) 0 i [])"
    using i(1) by (simp add: getProof_def)
  with i show ?thesis by (auto simp: getProof_loop_path)
qed

lemma getProof_round_trip:
  assumes t: "buildTree K leaves = Inr t" and leaf: "leaf \<in> set (layers t ! 0)"
  shows "\<exists>ps. getProof leaf (layers t) = Inr (map Some ps) \<and> verify K leaf ps (root t)"
proof -
  from buildTree_Inr [OF t] obtain rest where
    ls: "layers t = leaves # rest" and lk: "linked K (leaves # rest)"
    and last: "last (layers t) = [root t]" by blast
  from leaf ls have "leaf \<in> set leaves" by simp
  from getProof_found [OF this, of rest] obtain i where
    i: "i < length leaves" "leaves ! i = leaf"
    and g: "getProof leaf (leaves # rest) = Inr (path (leaves # rest) i)" by blast
  from linked_round_trip [OF lk i(1)] obtain ps where
    ps: "path (leaves # rest) i = map Some ps"
      "processProof K (leaves ! i) ps = Inr (last (leaves # rest) ! 0)" by blast
  from last ls have "last (leaves # rest) ! 0 = root t" by simp
  with ps(2) i(2) have "verify K leaf ps (root t)" by (simp add: verify_def)
  with g ps(1) ls show ?thesis by auto
qed

text \<open>
  Claim C1. For every non-empty list of 32-byte leaves, \<open>buildTree\<close> returns a tree, and
  for every leaf that occurs in layer 0 of it \<open>getProof\<close> returns a proof without gaps
  with which verification succeeds: folding \<open>hashPair\<close> over the proof, starting from
  the leaf, gives exactly the root that \<open>buildTree\<close> returned.
\<close>

theorem round_trip:
  assumes "leaves \<noteq> []" and "list_all isBytes32 leaves"
  shows "\<exists>t. buildTree K leaves = Inr t \<and>
           (\<forall>leaf \<in> set (layers t ! 0).
              \<exists>ps. getProof leaf (layers t) = Inr (map Some ps) \<and> verify K leaf ps (root t))"
proof -
  from buildTree_succeeds [OF assms] obtain t where t: "buildTree K leaves = Inr t" by blast
  with getProof_round_trip [OF t] show ?thesis by blast
qed

lemma isBytes32_hashC: "isBytes32 hashC"
  by (simp add: isBytes32_def hashC_def isHexChar_def code_def)

theorem round_trip_witness:
  "[hashA, hashB, hashC] \<noteq> [] \<and> list_all isBytes32 [hashA, hashB, hashC] \<and>
   (\<exists>t. buildTree sampleHash [hashA, hashB, hashC] = Inr t \<and> hashC \<in> set (layers t ! 0) \<and>
      (\<exists>ps. getProof hashC (layers t) = Inr (map Some ps) \<and> verify sampleHash hashC ps (root t)))"
proof -
  have ne: "[hashA, hashB, hashC] \<noteq> []" by simp
  have ok: "list_all isBytes32 [hashA, hashB, hashC]"
    by (simp add: isBytes32_hashA isBytes32_hashB isBytes32_hashC)
  from round_trip [OF ne ok, of sampleHash] obtain t where
    t: "buildTree sampleHash [hashA, hashB, hashC] = Inr t"
    and all: "\<forall>leaf \<in> set (layers t ! 0).
       \<exists>ps. getProof leaf (layers t) = Inr (map Some ps) \<and> verify sampleHash leaf ps (root t)"
    by blast
  from buildTree_Inr [OF t] have "hashC \<in> set (layers t ! 0)" by auto
  with t all ne ok show ?thesis by blast
qed

text \<open>
  Claim C7. \<open>buildTree\<close> on the empty list raises, and returns no tree; on every
  non-empty list of 32-byte leaves it returns one.
\<close>

theorem empty_rejected:
  "buildTree K [] = Inl NoLeaves \<and>
   (leaves \<noteq> [] \<and> list_all isBytes32 leaves \<longrightarrow> (\<exists>t. buildTree K leaves = Inr t))"
  using buildTree_succeeds [of leaves K] by (simp add: buildTree_empty)

theorem empty_rejected_witness:
  "buildTree sampleHash [] = Inl NoLeaves \<and>
   [hashB, hashA] \<noteq> [] \<and> list_all isBytes32 [hashB, hashA] \<and>
   (\<exists>t. buildTree sampleHash [hashB, hashA] = Inr t)"
  using empty_rejected [of sampleHash "[hashB, hashA]"]
  by (simp add: isBytes32_hashA isBytes32_hashB)

text \<open>
  Claim C5. The tree of one leaf \<open>L\<close> has root \<open>L\<close> and the layers \<open>[[L]]\<close>, and the
  proof of \<open>L\<close> in it is empty. No pair is hashed: the equations hold for every string
  \<open>L\<close>, also one that \<open>hashPair\<close> would reject, and for every \<open>K\<close>.
\<close>

theorem single_leaf:
  "buildTree K [L] = Inr \<lparr>root = L, layers = [[L]]\<rparr> \<and> getProof L [[L]] = Inr []"
proof
  have "buildTree_while K [L] [[L]] = Inr [[L]]"
    by (subst buildTree_while.simps) simp
  then show "buildTree K [L] = Inr \<lparr>root = L, layers = [[L]]\<rparr>"
    by (simp add: buildTree_def)
  have "getProof_loop [[L]] 0 0 [] = []"
    by (subst getProof_loop.simps) simp
  then show "getProof L [[L]] = Inr []"
    by (simp add: getProof_def)
qed

subsection \<open>Three leaves, errors and bounds\<close>

lemma three_leaf_tree:
  assumes "isBytes32 L0" "isBytes32 L1" "isBytes32 L2"
  shows "\<exists>c01 c22 r. hashPair K L0 L1 = Inr c01 \<and> hashPair K L2 L2 = Inr c22 \<and>
           hashPair K c01 c22 = Inr r \<and>
           buildTree K [L0, L1, L2] = Inr \<lparr>root = r, layers = [[L0, L1, L2], [c01, c22], [r]]\<rparr>"
proof -
  from hashPair_succeeds [OF assms(1,2)] obtain c01 where c01: "hashPair K L0 L1 = Inr c01" by blast
  from hashPair_succeeds [OF assms(3,3)] obtain c22 where c22: "hashPair K L2 L2 = Inr c22" by blast
  from hashPair_succeeds [OF hashPair_result [OF c01] hashPair_result [OF c22]]
  obtain r where r: "hashPair K c01 c22 = Inr r" by blast
  have f0: "buildTree_for K [L0, L1, L2] 0 [] = Inr [c01, c22]"
    by (simp add: buildTree_for.simps c01 c22)
  have f1: "buildTree_for K [c01, c22] 0 [] = Inr [r]"
    by (simp add: buildTree_for.simps r)
  have "buildTree_while K [L0, L1, L2] [[L0, L1, L2]] = Inr [[L0, L1, L2], [c01, c22], [r]]"
    by (simp add: buildTree_while.simps f0 f1)
  then have "buildTree K [L0, L1, L2] = Inr \<lparr>root = r, layers = [[L0, L1, L2], [c01, c22], [r]]\<rparr>"
    by (simp add: buildTree_def)
  with c01 c22 r show ?thesis by blast
qed

lemma three_leaf_proof_last:
  assumes "L2 \<noteq> L0" "L2 \<noteq> L1"
  shows "getProof L2 [[L0, L1, L2], [c01, c22], [r]] = Inr [Some L2, Some c01]"
  using assms by (simp add: getProof_def getProof_loop_path sibling_def js_get_def Let_def)

lemma three_leaf_proof_first:
  "getProof L0 [[L0, L1, L2], [c01, c22], [r]] = Inr [Some L1, Some c22]"
  by (simp add: getProof_def getProof_loop_path sibling_def js_get_def Let_def)

lemma three_leaf_proof_middle:
  assumes "L1 \<noteq> L0"
  shows "getProof L1 [[L0, L1, L2], [c01, c22], [r]] = Inr [Some L0, Some c22]"
  using assms by (simp add: getProof_def getProof_loop_path sibling_def js_get_def Let_def)

lemma three_leaf_proof_iff:
  "(getProof L2 [[L0, L1, L2], [c01, c22], [r]] = Inr [Some L2, Some c01]) =
     ((L2 \<noteq> L0 \<and> L2 \<noteq> L1) \<or> (L0 = L2 \<and> L1 = L2 \<and> c22 = c01))"
proof (cases "L2 = L0")
  case True
  then show ?thesis using three_leaf_proof_first [of L0 L1 L2 c01 c22 r] by auto
next
  case False
  show ?thesis
  proof (cases "L2 = L1")
    case True
    with False show ?thesis using three_leaf_proof_middle [of L1 L0 L2 c01 c22 r] by auto
  next
    case n1: False
    with False show ?thesis using three_leaf_proof_last [of L2 L0 L1 c01 c22 r] by simp
  qed
qed

text \<open>
  Claim C4, amended. For every three 32-byte leaves \<open>L0\<close>, \<open>L1\<close>, \<open>L2\<close>, layer 1 of
  the tree is \<open>[combine L0 L1, combine L2 L2]\<close> (the odd last element is paired with
  itself) and the root is the combine of the two elements of layer 1. The proof that
  \<open>getProof\<close> returns for \<open>L2\<close> is \<open>[L2, layer1[0]]\<close> exactly when \<open>L2\<close> differs
  from \<open>L0\<close> and from \<open>L1\<close>, or all three leaves are equal. (When \<open>L2\<close> equals an
  earlier leaf and the three are not all equal, \<^verbatim>\<open>indexOf\<close> finds the earlier position
  and the proof is the one of that position, as the instance after the theorem shows.)
\<close>

theorem three_leaf_tree_proof:
  assumes "isBytes32 L0" and "isBytes32 L1" and "isBytes32 L2"
  shows "\<exists>c01 c22 r. hashPair K L0 L1 = Inr c01 \<and> hashPair K L2 L2 = Inr c22 \<and>
           hashPair K c01 c22 = Inr r \<and>
           buildTree K [L0, L1, L2] = Inr \<lparr>root = r, layers = [[L0, L1, L2], [c01, c22], [r]]\<rparr> \<and>
           (getProof L2 [[L0, L1, L2], [c01, c22], [r]] = Inr [Some L2, Some c01]) =
             ((L2 \<noteq> L0 \<and> L2 \<noteq> L1) \<or> (L0 = L2 \<and> L1 = L2))"
proof -
  from three_leaf_tree [OF assms, of K] obtain c01 c22 r where
    h: "hashPair K L0 L1 = Inr c01" "hashPair K L2 L2 = Inr c22" "hashPair K c01 c22 = Inr r"
    and t: "buildTree K [L0, L1, L2] = Inr \<lparr>root = r, layers = [[L0, L1, L2], [c01, c22], [r]]\<rparr>"
    by blast
  have same: "L0 = L2 \<and> L1 = L2 \<Longrightarrow> c22 = c01" using h(1,2) by auto
  have "(getProof L2 [[L0, L1, L2], [c01, c22], [r]] = Inr [Some L2, Some c01]) =
          ((L2 \<noteq> L0 \<and> L2 \<noteq> L1) \<or> (L0 = L2 \<and> L1 = L2))"
    unfolding three_leaf_proof_iff using same by blast
  with h t show ?thesis by blast
qed

lemma hashes_distinct: "hashC \<noteq> hashA" "hashC \<noteq> hashB" "hashB \<noteq> hashA"
  by (simp_all add: hashA_def hashB_def hashC_def)

theorem three_leaf_tree_proof_witness:
  "isBytes32 hashA \<and> isBytes32 hashB \<and> isBytes32 hashC \<and>
   (\<exists>c01 c22 r. hashPair sampleHash hashA hashB = Inr c01 \<and>
      hashPair sampleHash hashC hashC = Inr c22 \<and> hashPair sampleHash c01 c22 = Inr r \<and>
      buildTree sampleHash [hashA, hashB, hashC] =
        Inr \<lparr>root = r, layers = [[hashA, hashB, hashC], [c01, c22], [r]]\<rparr> \<and>
      getProof hashC [[hashA, hashB, hashC], [c01, c22], [r]] = Inr [Some hashC, Some c01]) \<and>
   (\<exists>c01 c22 r. hashPair sampleHash hashA hashA = Inr c01 \<and>
      hashPair sampleHash hashA hashA = Inr c22 \<and> hashPair sampleHash c01 c22 = Inr r \<and>
      buildTree sampleHash [hashA, hashA, hashA] =
        Inr \<lparr>root = r, layers = [[hashA, hashA, hashA], [c01, c22], [r]]\<rparr> \<and>
      getProof hashA [[hashA, hashA, hashA], [c01, c22], [r]] = Inr [Some hashA, Some c01])"
proof -
  have 1: "\<exists>c01 c22 r. hashPair sampleHash hashA hashB = Inr c01 \<and>
      hashPair sampleHash hashC hashC = Inr c22 \<and> hashPair sampleHash c01 c22 = Inr r \<and>
      buildTree sampleHash [hashA, hashB, hashC] =
        Inr \<lparr>root = r, layers = [[hashA, hashB, hashC], [c01, c22], [r]]\<rparr> \<and>
      getProof hashC [[hashA, hashB, hashC], [c01, c22], [r]] = Inr [Some hashC, Some c01]"
    using three_leaf_tree_proof [OF isBytes32_hashA isBytes32_hashB isBytes32_hashC, of sampleHash]
      hashes_distinct(1) hashes_distinct(2) by blast
  have 2: "\<exists>c01 c22 r. hashPair sampleHash hashA hashA = Inr c01 \<and>
      hashPair sampleHash hashA hashA = Inr c22 \<and> hashPair sampleHash c01 c22 = Inr r \<and>
      buildTree sampleHash [hashA, hashA, hashA] =
        Inr \<lparr>root = r, layers = [[hashA, hashA, hashA], [c01, c22], [r]]\<rparr> \<and>
      getProof hashA [[hashA, hashA, hashA], [c01, c22], [r]] = Inr [Some hashA, Some c01]"
    using three_leaf_tree_proof [OF isBytes32_hashA isBytes32_hashA isBytes32_hashA, of sampleHash]
    by blast
  from 1 2 isBytes32_hashA isBytes32_hashB isBytes32_hashC show ?thesis by blast
qed

text \<open>
  Claim C4 as stated fails for \<open>[L0, L1, L2] = [hashA, hashB, hashA]\<close>: the proof
  returned for \<open>L2 = hashA\<close> is \<open>[hashB, layer1[1]]\<close>, the proof of position 0, and
  not \<open>[L2, layer1[0]]\<close>. The hash plays no part in it: lemmas \<open>three_leaf_tree\<close>
  and \<open>three_leaf_proof_first\<close> hold for every \<open>K\<close>.
\<close>

theorem three_leaf_duplicate_counterexample:
  "(case buildTree sampleHash [hashA, hashB, hashA] of
      Inl e \<Rightarrow> False
    | Inr t \<Rightarrow> getProof hashA (layers t) = Inr [Some hashB, Some (layers t ! 1 ! 1)] \<and>
               getProof hashA (layers t) \<noteq> Inr [Some hashA, Some (layers t ! 1 ! 0)])"
proof -
  from three_leaf_tree [OF isBytes32_hashA isBytes32_hashB isBytes32_hashA, of sampleHash]
  obtain c01 c22 r where
    t: "buildTree sampleHash [hashA, hashB, hashA] =
          Inr \<lparr>root = r, layers = [[hashA, hashB, hashA], [c01, c22], [r]]\<rparr>" by blast
  show ?thesis
    unfolding t using hashes_distinct(3) by (simp add: three_leaf_proof_first)
qed

lemma getProof_raises_iff:
  "(\<exists>e. getProof leaf ls = Inl e) = (\<not> occursInLayer0 leaf ls)"
proof (cases ls)
  case Nil
  then show ?thesis by (simp add: getProof_def occursInLayer0_def)
next
  case (Cons l rest)
  then show ?thesis
    using indexOf_notin [of l leaf] by (auto simp: getProof_def occursInLayer0_def Let_def)
qed

lemma indexOf_least:
  assumes "i < length l" "l ! i = leaf" "\<forall>j<i. l ! j \<noteq> leaf"
  shows "indexOf l leaf = int i"
proof -
  from assms(1,2) have "leaf \<in> set l" by auto
  from indexOf_first [OF this] obtain k where
    k: "indexOf l leaf = int k" "k < length l" "l ! k = leaf" "\<forall>j<k. l ! j \<noteq> leaf" by blast
  have "\<not> k < i" using assms(3) k(3) by blast
  moreover have "\<not> i < k" using assms(2) k(4) by blast
  ultimately have "k = i" by simp
  with k(1) show ?thesis by simp
qed

text \<open>
  Claim C6. \<open>getProof\<close> raises exactly when the leaf does not occur in layer 0 (an
  empty \<open>layers\<close> has no layer 0: the call raises a TypeError). When the leaf occurs,
  the proof is the one the loop computes from the first position \<open>i\<close> that holds it,
  whatever later positions hold it too.
\<close>

theorem getProof_error_and_first_occurrence:
  "((\<exists>e. getProof leaf ls = Inl e) = (\<not> occursInLayer0 leaf ls)) \<and>
   (ls = l # rest \<and> i < length l \<and> l ! i = leaf \<and> (\<forall>j<i. l ! j \<noteq> leaf) \<longrightarrow>
      getProof leaf ls = Inr (getProof_loop ls 0 i []))"
proof (intro conjI impI)
  show "(\<exists>e. getProof leaf ls = Inl e) = (\<not> occursInLayer0 leaf ls)"
    by (rule getProof_raises_iff)
next
  assume a: "ls = l # rest \<and> i < length l \<and> l ! i = leaf \<and> (\<forall>j<i. l ! j \<noteq> leaf)"
  then have "indexOf l leaf = int i" by (intro indexOf_least) simp_all
  with a show "getProof leaf ls = Inr (getProof_loop ls 0 i [])"
    by (simp add: getProof_def)
qed

theorem getProof_error_and_first_occurrence_witness:
  "((\<exists>e. getProof hashD [[hashB, hashA, hashA], [hashC, hashD], [hashC]] = Inl e) =
      (\<not> occursInLayer0 hashD [[hashB, hashA, hashA], [hashC, hashD], [hashC]])) \<and>
   (1::nat) < length [hashB, hashA, hashA] \<and> [hashB, hashA, hashA] ! 1 = hashA \<and>
   [hashB, hashA, hashA] ! 0 \<noteq> hashA \<and> [hashB, hashA, hashA] ! 2 = hashA \<and>
   getProof hashA [[hashB, hashA, hashA], [hashC, hashD], [hashC]] =
     Inr (getProof_loop [[hashB, hashA, hashA], [hashC, hashD], [hashC]] 0 1 []) \<and>
   getProof hashA [[hashB, hashA, hashA], [hashC, hashD], [hashC]] = Inr [Some hashB, Some hashD]"
proof -
  let ?l = "[hashB, hashA, hashA]" and ?rest = "[[hashC, hashD], [hashC]]"
  have h: "?l # ?rest = ?l # ?rest \<and> (1::nat) < length ?l \<and> ?l ! 1 = hashA \<and>
           (\<forall>j<1. ?l ! j \<noteq> hashA)"
    using hashes_distinct(3) by simp
  have 1: "(\<exists>e. getProof hashD (?l # ?rest) = Inl e) = (\<not> occursInLayer0 hashD (?l # ?rest))"
    using getProof_error_and_first_occurrence [of hashD "?l # ?rest"] by blast
  have 2: "getProof hashA (?l # ?rest) = Inr (getProof_loop (?l # ?rest) 0 1 [])"
    using getProof_error_and_first_occurrence [of hashA "?l # ?rest" ?l ?rest 1] h by blast
  have 3: "getProof_loop (?l # ?rest) 0 1 [] = [Some hashB, Some hashD]"
    by (simp add: getProof_loop_path sibling_def js_get_def Let_def)
  show ?thesis using 1 2 3 hashes_distinct(3) by simp
qed

lemma getProof_loop_reads:
  "getProof_loop ls level idx acc = acc @ map (readAt ls) (getProof_reads ls level idx)"
proof (induction ls level idx acc rule: getProof_loop.induct)
  case (1 ls level idx acc)
  show ?case
  proof (cases "int level < int (length ls) - 1")
    case True
    let ?pair = "if idx mod 2 = 1 then idx - 1 else idx + 1"
    let ?sib = "if ?pair < length (ls ! level) then js_get (ls ! level) ?pair
                else js_get (ls ! level) idx"
    let ?pos = "if ?pair < length (ls ! level) then ?pair else idx"
    have "getProof_loop ls level idx acc = getProof_loop ls (level + 1) (idx div 2) (acc @ [?sib])"
      by (subst getProof_loop.simps) (simp only: True if_True Let_def)
    also have "\<dots> = (acc @ [?sib]) @ map (readAt ls) (getProof_reads ls (level + 1) (idx div 2))"
      by (rule "1.IH" [OF True refl refl refl refl])
    also have "?sib = readAt ls (level, idx, ?pos)"
      by (simp add: readAt_def)
    also have "(acc @ [readAt ls (level, idx, ?pos)]) @
                 map (readAt ls) (getProof_reads ls (level + 1) (idx div 2)) =
               acc @ map (readAt ls) ((level, idx, ?pos) # getProof_reads ls (level + 1) (idx div 2))"
      by simp
    also have "(level, idx, ?pos) # getProof_reads ls (level + 1) (idx div 2) =
               getProof_reads ls level idx"
      by (subst (2) getProof_reads.simps) (simp only: True if_True Let_def)
    finally show ?thesis .
  next
    case False
    then have "getProof_reads ls level idx = []" by (subst getProof_reads.simps) simp
    with False show ?thesis by (subst getProof_loop.simps) simp
  qed
qed

lemma getProof_reads_in_bounds:
  "linked K (drop level ls) \<Longrightarrow> idx < length (ls ! level) \<Longrightarrow>
     list_all (readInBounds ls) (getProof_reads ls level idx)"
proof (induction ls level idx rule: getProof_reads.induct)
  case (1 ls level idx)
  show ?case
  proof (cases "int level < int (length ls) - 1")
    case True
    then have lt: "Suc level < length ls" by simp
    let ?pair = "if idx mod 2 = 1 then idx - 1 else idx + 1"
    let ?pos = "if ?pair < length (ls ! level) then ?pair else idx"
    have d: "drop level ls = ls ! level # ls ! Suc level # drop (Suc (Suc level)) ls"
      using lt by (simp add: Cons_nth_drop_Suc)
    have d2: "drop (level + 1) ls = ls ! Suc level # drop (Suc (Suc level)) ls"
      using lt by (simp add: Cons_nth_drop_Suc)
    from "1.prems"(1) have f: "buildTree_for K (ls ! level) 0 [] = Inr (ls ! Suc level)"
      and lk: "linked K (drop (level + 1) ls)"
      unfolding d d2 by simp_all
    have half: "idx div 2 < length (ls ! (level + 1))"
      using linked_length_next [OF f] "1.prems"(2) by simp
    have pos: "?pos < length (ls ! level)" using "1.prems"(2) by simp
    have near: "?pos = idx \<or> ?pos + 1 = idx \<or> ?pos = idx + 1" by (simp; arith)
    have here: "readInBounds ls (level, idx, ?pos)"
      unfolding readInBounds_def using lt "1.prems"(2) pos near half by simp
    have rest: "list_all (readInBounds ls) (getProof_reads ls (level + 1) (idx div 2))"
      by (rule "1.IH" [OF True refl refl refl refl lk half])
    have "getProof_reads ls level idx =
            (level, idx, ?pos) # getProof_reads ls (level + 1) (idx div 2)"
      by (subst getProof_reads.simps) (simp only: True if_True Let_def)
    with here rest show ?thesis by simp
  next
    case False
    then have "getProof_reads ls level idx = []" by (subst getProof_reads.simps) simp
    then show ?thesis by simp
  qed
qed

text \<open>
  Claim C10. For the layers of a tree that \<open>buildTree\<close> returned and a leaf that occurs
  in layer 0, every read of \<open>getProof\<close>'s loop is in bounds. The loop makes one pass per
  layer but the last; in each pass the level is below \<open>length layers - 1\<close>, the running
  index is a position of that layer, the position read (the sibling's, or the index
  itself when the sibling's is past the end) is a position of that layer, and the halved
  index is a position of the next layer. The proof returned is the list of these reads.
\<close>

theorem getProof_in_bounds:
  assumes "buildTree K leaves = Inr t" and "leaf \<in> set (layers t ! 0)"
  shows "\<exists>i. indexOf (layers t ! 0) leaf = int i \<and> i < length (layers t ! 0) \<and>
           getProof leaf (layers t) = Inr (map (readAt (layers t)) (getProof_reads (layers t) 0 i)) \<and>
           list_all (readInBounds (layers t)) (getProof_reads (layers t) 0 i) \<and>
           length (getProof_reads (layers t) 0 i) = length (layers t) - 1"
proof -
  from buildTree_Inr [OF assms(1)] obtain rest where
    ls: "layers t = leaves # rest" and lk: "linked K (leaves # rest)" by blast
  from assms(2) ls have "leaf \<in> set leaves" by simp
  from indexOf_first [OF this] obtain i where
    i: "indexOf leaves leaf = int i" "i < length leaves" by blast
  have g: "getProof leaf (layers t) = Inr (getProof_loop (layers t) 0 i [])"
    using i(1) ls by (simp add: getProof_def)
  have b: "list_all (readInBounds (layers t)) (getProof_reads (layers t) 0 i)"
    by (rule getProof_reads_in_bounds [of K]) (simp_all add: ls lk i(2))
  have "length (getProof_loop (layers t) 0 i []) = length (path (layers t) i)"
    by (simp add: getProof_loop_path)
  moreover from linked_round_trip [OF lk i(2)] have "length (path (leaves # rest) i) = length rest"
    by (metis length_map)
  ultimately have "length (getProof_reads (layers t) 0 i) = length (layers t) - 1"
    by (simp add: getProof_loop_reads ls)
  with g b i ls show ?thesis by (simp add: getProof_loop_reads)
qed

theorem getProof_in_bounds_witness:
  "\<exists>t. buildTree sampleHash [hashA, hashB, hashC] = Inr t \<and> hashC \<in> set (layers t ! 0) \<and>
     (\<exists>i. indexOf (layers t ! 0) hashC = int i \<and> i < length (layers t ! 0) \<and>
        getProof hashC (layers t) =
          Inr (map (readAt (layers t)) (getProof_reads (layers t) 0 i)) \<and>
        list_all (readInBounds (layers t)) (getProof_reads (layers t) 0 i) \<and>
        length (getProof_reads (layers t) 0 i) = length (layers t) - 1)"
proof -
  have "[hashA, hashB, hashC] \<noteq> []" "list_all isBytes32 [hashA, hashB, hashC]"
    by (simp_all add: isBytes32_hashA isBytes32_hashB isBytes32_hashC)
  from buildTree_succeeds [OF this] obtain t
    where t: "buildTree sampleHash [hashA, hashB, hashC] = Inr t" by blast
  from buildTree_Inr [OF t] have m: "hashC \<in> set (layers t ! 0)" by auto
  from getProof_in_bounds [OF t m] t m show ?thesis by blast
qed

subsection \<open>The leaf encoding\<close>

lemma hexValue_hexDigit: "hexValue (hexDigit k) = k mod 16"
proof -
  have m: "map hexValue ''0123456789abcdef'' = [0..<16]"
    by (simp add: hexValue_def code_def upt_rec)
  have "k mod 16 < length ''0123456789abcdef''" by simp
  then have "hexValue (''0123456789abcdef'' ! (k mod 16)) = map hexValue ''0123456789abcdef'' ! (k mod 16)"
    by (simp only: nth_map)
  also have "\<dots> = k mod 16" unfolding m by simp
  finally show ?thesis by (simp add: hexDigit_def)
qed

lemma hexByte_hexDigit: "hexByte (hexDigit (m div 16)) (hexDigit m) = word_of_nat m"
proof -
  have "16 * ((m div 16) mod 16) + m mod 16 = m mod 256"
    using mod_mult2_eq [of m 16 16] by simp
  then have "hexByte (hexDigit (m div 16)) (hexDigit m) = (word_of_nat (m mod 256) :: byte)"
    by (simp only: hexByte_def hexValue_hexDigit)
  also have "\<dots> = word_of_nat m"
    by (simp add: word_eq_iff_unsigned [where ?'a = nat] unat_of_nat)
  finally show ?thesis .
qed

lemma hexPairs_snoc2:
  "length xs = 2 * n \<Longrightarrow> hexPairs (xs @ [a, b]) = hexPairs xs @ [hexByte a b]"
  by (simp add: hexPairs_append)

lemma hexPairs_map_upt:
  "hexPairs (map f [0..<2 * m]) = map (\<lambda>j. hexByte (f (2 * j)) (f (2 * j + 1))) [0..<m]"
proof (induction m)
  case 0
  show ?case by simp
next
  case (Suc m)
  have "[0..<2 * Suc m] = [0..<2 * m] @ [2 * m, 2 * m + 1]" by simp
  then have "hexPairs (map f [0..<2 * Suc m]) =
               hexPairs (map f [0..<2 * m] @ [f (2 * m), f (2 * m + 1)])" by simp
  also have "\<dots> = hexPairs (map f [0..<2 * m]) @ [hexByte (f (2 * m)) (f (2 * m + 1))]"
    by (rule hexPairs_snoc2 [of _ m]) simp
  finally show ?case by (simp add: Suc.IH)
qed

lemma hexPairs_hex64: "hexPairs (drop 2 (hex64 n)) = uint256_be n"
proof -
  have "hexPairs (drop 2 (hex64 n)) = hexPairs (map (\<lambda>i. hexDigit (n div 16 ^ (63 - i))) [0..<2 * 32])"
    by (simp add: hex64_def)
  also have "\<dots> = map (\<lambda>j. hexByte (hexDigit (n div 16 ^ (63 - 2 * j)))
                                   (hexDigit (n div 16 ^ (63 - (2 * j + 1))))) [0..<32]"
    by (rule hexPairs_map_upt)
  also have "\<dots> = map (\<lambda>j. word_of_nat (n div 256 ^ (31 - j))) [0..<32]"
  proof (rule map_cong [OF refl])
    fix j assume "j \<in> set [0..<32]"
    then have j: "j < 32" by simp
    let ?m = "n div 256 ^ (31 - j)"
    have p: "(256::nat) ^ (31 - j) = 16 ^ (62 - 2 * j)"
    proof -
      have "(256::nat) ^ (31 - j) = (16 ^ 2) ^ (31 - j)" by simp
      also have "\<dots> = 16 ^ (2 * (31 - j))" by (simp only: power_mult)
      also have "2 * (31 - j) = 62 - 2 * j" by simp
      finally show ?thesis .
    qed
    have q: "63 - 2 * j = Suc (62 - 2 * j)" "63 - (2 * j + 1) = 62 - 2 * j" using j by simp_all
    have "n div 16 ^ Suc (62 - 2 * j) = n div (16 ^ (62 - 2 * j) * 16)"
      by (simp add: mult.commute)
    also have "\<dots> = n div 16 ^ (62 - 2 * j) div 16"
      by (rule div_mult2_eq)
    finally have "n div 16 ^ (63 - 2 * j) = ?m div 16"
      unfolding q p .
    moreover have "n div 16 ^ (63 - (2 * j + 1)) = ?m" unfolding q p ..
    ultimately show "hexByte (hexDigit (n div 16 ^ (63 - 2 * j)))
                             (hexDigit (n div 16 ^ (63 - (2 * j + 1)))) = word_of_nat ?m"
      by (simp only: hexByte_hexDigit)
  qed
  finally show ?thesis by (simp add: uint256_be_def)
qed

lemma be_value_snoc: "be_value (bs @ [b]) = 256 * be_value bs + unat b"
  by (simp add: be_value_def)

lemma be_value_prefix:
  "n < 2 ^ 256 \<Longrightarrow> k \<le> 32 \<Longrightarrow>
     be_value (map (\<lambda>i. word_of_nat (n div 256 ^ (31 - i))) [0..<k]) = n div 256 ^ (32 - k)"
proof (induction k)
  case 0
  then show ?case by (simp add: be_value_def)
next
  case (Suc k)
  then have k: "k < 32" by simp
  let ?m = "n div 256 ^ (31 - k)"
  have e: "32 - k = Suc (31 - k)" using k by simp
  have "n div 256 ^ Suc (31 - k) = n div (256 ^ (31 - k) * 256)" by (simp add: mult.commute)
  also have "\<dots> = ?m div 256" by (rule div_mult2_eq)
  finally have d: "n div 256 ^ (32 - k) = ?m div 256" unfolding e .
  have "be_value (map (\<lambda>i. word_of_nat (n div 256 ^ (31 - i))) [0..<Suc k]) =
          256 * be_value (map (\<lambda>i. word_of_nat (n div 256 ^ (31 - i))) [0..<k]) +
          unat (word_of_nat ?m :: byte)"
    by (simp add: be_value_snoc)
  also have "\<dots> = 256 * (?m div 256) + ?m mod 256"
    using Suc.IH Suc.prems(1) k by (simp add: d unat_of_nat)
  also have "\<dots> = ?m" by simp
  finally show ?case using k by simp
qed

lemma be_value_uint256_be: "n < 2 ^ 256 \<Longrightarrow> be_value (uint256_be n) = n"
  using be_value_prefix [of n 32] by (simp add: uint256_be_def)

lemma length_uint256_be: "length (uint256_be n) = 32"
  by (simp add: uint256_be_def)

lemma isAddress_digits:
  assumes "isAddress a"
  shows "length (drop 2 a) = 2 * 20" "a = ''0x'' @ drop 2 a"
proof -
  from assms show "length (drop 2 a) = 2 * 20" by (simp add: isAddress_def)
  from assms have "take 2 a = ''0x''" by (simp add: isAddress_def)
  then show "a = ''0x'' @ drop 2 a" by (metis append_take_drop_id)
qed

lemma hexToBytes_address: "isAddress a \<Longrightarrow> hexToBytes a = hexPairs (drop 2 a)"
  by (simp add: hexToBytes_def isAddress_def)

lemma length_hexToBytes_address: "isAddress a \<Longrightarrow> length (hexToBytes a) = 20"
  using isAddress_digits(1) [of a] length_hexPairs [of "drop 2 a" 20]
  by (simp add: hexToBytes_address)

lemma length_digits_hex64: "length (drop 2 (hex64 n)) = 2 * 32"
  by (simp add: hex64_def)

lemma hexToBytes_packed_leaf:
  assumes "isAddress a"
  shows "hexToBytes (''0x'' @ drop 2 a @ drop 2 (hex64 x) @ drop 2 (hex64 y)) =
           hexToBytes a @ uint256_be x @ uint256_be y"
proof -
  let ?A = "drop 2 a" and ?X = "drop 2 (hex64 x)" and ?Y = "drop 2 (hex64 y)"
  have "length (?A @ ?X @ ?Y) = 168"
    using isAddress_digits(1) [OF assms] length_digits_hex64 [of x] length_digits_hex64 [of y]
    by (simp only: length_append)
  then have "even (length (?A @ ?X @ ?Y))" by presburger
  then have "hexToBytes (''0x'' @ ?A @ ?X @ ?Y) = hexPairs (?A @ ?X @ ?Y)"
    by (simp add: hexToBytes_def)
  also have "\<dots> = hexPairs ?A @ hexPairs (?X @ ?Y)"
    by (rule hexPairs_append [OF isAddress_digits(1) [OF assms]])
  also have "hexPairs (?X @ ?Y) = hexPairs ?X @ hexPairs ?Y"
    by (rule hexPairs_append [OF length_digits_hex64])
  finally show ?thesis by (simp add: hexToBytes_address assms hexPairs_hex64)
qed

lemma leafPacked_valid:
  assumes "isAddress address" "toLowerCase address = address"
    "0 \<le> amount" "amount < 2 ^ 256" "0 \<le> generatedLoss" "generatedLoss < 2 ^ 256"
  shows "leafPacked K address amount generatedLoss =
           Inr (hex64 (unat (K (encodeLeafInput address (nat amount) (nat generatedLoss)))))"
proof -
  have "encodePacked_address_uint256_uint256 (address, amount, generatedLoss) =
          Inr (''0x'' @ drop 2 address @ drop 2 (hex64 (nat amount)) @
               drop 2 (hex64 (nat generatedLoss)))"
    using assms by (simp add: encodePacked_address_uint256_uint256_def)
  then show ?thesis
    unfolding leafPacked_def keccak256_def encodeLeafInput_def
    by (simp only: sum.case hexToBytes_packed_leaf [OF assms(1)])
qed

lemma isAddress_addrA: "isAddress addrA" "toLowerCase addrA = addrA"
  by (simp_all add: isAddress_def addrA_def isHexChar_def code_def toLowerCase_def toLowerChar_def)

lemma hex64_inj:
  assumes "n < 2 ^ 256" "m < 2 ^ 256" "hex64 n = hex64 m"
  shows "n = m"
proof -
  from assms(3) have "hexPairs (drop 2 (hex64 n)) = hexPairs (drop 2 (hex64 m))" by simp
  then have "be_value (uint256_be n) = be_value (uint256_be m)" by (simp only: hexPairs_hex64)
  with assms(1,2) show ?thesis by (simp only: be_value_uint256_be)
qed

lemma digest_hex_inj: "(hex64 (unat (v :: 256 word)) = hex64 (unat w)) = (v = w)"
proof
  assume e: "hex64 (unat v) = hex64 (unat w)"
  have "unat v < 2 ^ 256" "unat w < 2 ^ 256"
    using unsigned_less [of v] unsigned_less [of w] by simp_all
  from hex64_inj [OF this e] show "v = w" by (simp only: word_unat_eq_iff)
qed simp

lemma standard_leaf_equal_iff_collision:
  assumes "isAddress address" "toLowerCase address = address"
    "0 \<le> amount" "amount < 2 ^ 256" "0 \<le> generatedLoss" "generatedLoss < 2 ^ 256"
  shows "(leafPacked K address amount generatedLoss =
            Inr (standardLeafHash K address (nat amount) (nat generatedLoss))) =
         (K (encodeLeafInput address (nat amount) (nat generatedLoss)) =
          K (uint256_be (unat (K (abiEncode_address_uint256_uint256 address (nat amount)
               (nat generatedLoss))))))"
  by (simp add: leafPacked_valid [OF assms] standardLeafHash_def digest_hex_inj)

lemma length_encodeLeafInput:
  "isAddress address \<Longrightarrow> length (encodeLeafInput address x y) = 84"
  by (simp add: encodeLeafInput_def length_hexToBytes_address length_uint256_be)

text \<open>
  Claim C2 as stated fails for generate-claims.mjs. The bytes it encodes for a record
  are the 96 bytes of the standard ABI encoding, not the 84 packed bytes, and its leaf
  is the digest of the 32-byte digest of these 96 bytes, whereas \<open>leafPacked\<close> hashes
  the 84 bytes: by lemma \<open>standard_leaf_equal_iff_collision\<close> the two leaves are equal
  only when the hash collides on two byte strings of 84 and of 32 bytes. With
  \<open>sampleHash\<close>, which separates lengths, they differ, for the double hash of the
  library as for the single hash that the script's comment names.
\<close>

theorem leaf_encoding_counterexample:
  "abiEncode_address_uint256_uint256 addrA 1 2 \<noteq> encodeLeafInput addrA 1 2 \<and>
   leafPacked sampleHash addrA 1 2 \<noteq> Inr (standardLeafHash sampleHash addrA 1 2) \<and>
   leafPacked sampleHash addrA 1 2 \<noteq>
     Inr (hex64 (unat (sampleHash (abiEncode_address_uint256_uint256 addrA 1 2))))"
proof (intro conjI)
  have "length (abiEncode_address_uint256_uint256 addrA 1 2) = 96"
    by (simp add: abiEncode_address_uint256_uint256_def length_hexToBytes_address
        isAddress_addrA length_uint256_be)
  moreover have "length (encodeLeafInput addrA 1 2) = 84"
    by (simp add: length_encodeLeafInput isAddress_addrA)
  ultimately show "abiEncode_address_uint256_uint256 addrA 1 2 \<noteq> encodeLeafInput addrA 1 2"
    by auto
next
  have r: "(0::int) \<le> 1" "(1::int) < 2 ^ 256" "(0::int) \<le> 2" "(2::int) < 2 ^ 256" by simp_all
  have p: "leafPacked sampleHash addrA 1 2 =
             Inr (hex64 (unat (sampleHash (encodeLeafInput addrA 1 2))))"
    using leafPacked_valid [OF isAddress_addrA r, of sampleHash] by simp
  have l: "sampleHash (encodeLeafInput addrA 1 2) = 84"
    by (simp add: sampleHash_def length_encodeLeafInput isAddress_addrA)
  have "sampleHash (uint256_be (unat (sampleHash (abiEncode_address_uint256_uint256 addrA 1 2)))) = 32"
    by (simp add: sampleHash_def length_uint256_be)
  moreover have "hex64 84 \<noteq> hex64 32" using hex64_inj [of 84 32] by auto
  ultimately show "leafPacked sampleHash addrA 1 2 \<noteq> Inr (standardLeafHash sampleHash addrA 1 2)"
    unfolding p l standardLeafHash_def by simp
next
  have r: "(0::int) \<le> 1" "(1::int) < 2 ^ 256" "(0::int) \<le> 2" "(2::int) < 2 ^ 256" by simp_all
  have p: "leafPacked sampleHash addrA 1 2 =
             Inr (hex64 (unat (sampleHash (encodeLeafInput addrA 1 2))))"
    using leafPacked_valid [OF isAddress_addrA r, of sampleHash] by simp
  have l: "sampleHash (encodeLeafInput addrA 1 2) = 84"
    by (simp add: sampleHash_def length_encodeLeafInput isAddress_addrA)
  have "sampleHash (abiEncode_address_uint256_uint256 addrA 1 2) = 96"
    by (simp add: sampleHash_def abiEncode_address_uint256_uint256_def
        length_hexToBytes_address isAddress_addrA length_uint256_be)
  moreover have "hex64 84 \<noteq> hex64 96" using hex64_inj [of 84 96] by auto
  ultimately show "leafPacked sampleHash addrA 1 2 \<noteq>
     Inr (hex64 (unat (sampleHash (abiEncode_address_uint256_uint256 addrA 1 2))))"
    unfolding p l by simp
qed

text \<open>
  Claim C2, amended. Every leaf hash that \<open>leafPacked\<close> produces for a lowercase
  20-byte address and two integers in 0 .. 2^256 - 1 is the Keccak-256 digest of the
  tight 84-byte concatenation of the address's 20 bytes, the amount as 32 bytes
  big-endian and generatedLoss as 32 bytes big-endian, with nothing between them.
  (\<open>leafPacked_v2\<close> and \<open>leafPacked_v3\<close> are the same function, by their
  definitions. The leaves of generate-claims.mjs are not of this form, as shown above.)
\<close>

theorem leafPacked_encoding:
  assumes "isAddress address" and "toLowerCase address = address"
    and "0 \<le> amount" and "amount < 2 ^ 256" and "0 \<le> generatedLoss" and "generatedLoss < 2 ^ 256"
  shows "leafPacked K address amount generatedLoss =
           Inr (hex64 (unat (K (encodeLeafInput address (nat amount) (nat generatedLoss))))) \<and>
         length (encodeLeafInput address (nat amount) (nat generatedLoss)) = 84 \<and>
         take 20 (encodeLeafInput address (nat amount) (nat generatedLoss)) = hexToBytes address \<and>
         length (hexToBytes address) = 20 \<and>
         int (be_value (take 32 (drop 20 (encodeLeafInput address (nat amount) (nat generatedLoss)))))
           = amount \<and>
         int (be_value (drop 52 (encodeLeafInput address (nat amount) (nat generatedLoss))))
           = generatedLoss"
proof -
  have a: "nat amount < 2 ^ 256" and g: "nat generatedLoss < 2 ^ 256"
    using assms(3-6) by (simp_all add: nat_less_iff)
  have la: "length (hexToBytes address) = 20" by (rule length_hexToBytes_address [OF assms(1)])
  have "take 32 (drop 20 (encodeLeafInput address (nat amount) (nat generatedLoss))) =
          uint256_be (nat amount)"
    by (simp add: encodeLeafInput_def la length_uint256_be)
  moreover have "drop 52 (encodeLeafInput address (nat amount) (nat generatedLoss)) =
          uint256_be (nat generatedLoss)"
    by (simp add: encodeLeafInput_def la length_uint256_be)
  moreover have "take 20 (encodeLeafInput address (nat amount) (nat generatedLoss)) =
          hexToBytes address"
    by (simp add: encodeLeafInput_def la)
  ultimately show ?thesis
    using leafPacked_valid [OF assms, of K] length_encodeLeafInput [OF assms(1)] la
      be_value_uint256_be [OF a] be_value_uint256_be [OF g] assms(3,5)
    by simp
qed

theorem leafPacked_encoding_witness:
  "isAddress addrA \<and> toLowerCase addrA = addrA \<and> (0::int) \<le> 1 \<and> (1::int) < 2 ^ 256 \<and>
   (0::int) \<le> 2 \<and> (2::int) < 2 ^ 256 \<and>
   leafPacked sampleHash addrA 1 2 =
     Inr (hex64 (unat (sampleHash (encodeLeafInput addrA (nat 1) (nat 2))))) \<and>
   length (encodeLeafInput addrA (nat 1) (nat 2)) = 84 \<and>
   take 20 (encodeLeafInput addrA (nat 1) (nat 2)) = hexToBytes addrA \<and>
   length (hexToBytes addrA) = 20 \<and>
   int (be_value (take 32 (drop 20 (encodeLeafInput addrA (nat 1) (nat 2))))) = 1 \<and>
   int (be_value (drop 52 (encodeLeafInput addrA (nat 1) (nat 2)))) = 2"
proof -
  have r: "(0::int) \<le> 1" "(1::int) < 2 ^ 256" "(0::int) \<le> 2" "(2::int) < 2 ^ 256" by simp_all
  from leafPacked_encoding [OF isAddress_addrA r, of sampleHash] isAddress_addrA r
  show ?thesis by blast
qed

subsection \<open>The three scripts\<close>

lemma buildTree_while_v2_eq:
  "buildTree_while_v2 K level ls = buildTree_while K level ls"
proof (induction K level ls rule: buildTree_while.induct)
  case (1 K level ls)
  show ?case
  proof (cases "1 < length level")
    case True
    show ?thesis
    proof (cases "buildTree_for K level 0 []")
      case (Inl e)
      with True show ?thesis
        by (subst buildTree_while_v2.simps, subst buildTree_while.simps)
          (simp add: buildTree_for_v2_eq)
    next
      case (Inr nxt)
      from "1.IH" [OF True Inr] Inr True show ?thesis
        by (subst buildTree_while_v2.simps, subst buildTree_while.simps)
          (simp add: buildTree_for_v2_eq)
    qed
  next
    case False
    then show ?thesis
      by (subst buildTree_while_v2.simps, subst buildTree_while.simps) simp
  qed
qed

lemma buildTree_while_v3_eq:
  "buildTree_while_v3 K level ls = buildTree_while K level ls"
proof (induction K level ls rule: buildTree_while.induct)
  case (1 K level ls)
  show ?case
  proof (cases "1 < length level")
    case True
    show ?thesis
    proof (cases "buildTree_for K level 0 []")
      case (Inl e)
      with True show ?thesis
        by (subst buildTree_while_v3.simps, subst buildTree_while.simps)
          (simp add: buildTree_for_v3_eq)
    next
      case (Inr nxt)
      from "1.IH" [OF True Inr] Inr True show ?thesis
        by (subst buildTree_while_v3.simps, subst buildTree_while.simps)
          (simp add: buildTree_for_v3_eq)
    qed
  next
    case False
    then show ?thesis
      by (subst buildTree_while_v3.simps, subst buildTree_while.simps) simp
  qed
qed

lemma getProof_loop_v2_eq:
  "getProof_loop_v2 ls level idx acc = getProof_loop ls level idx acc"
proof (induction ls level idx acc rule: getProof_loop.induct)
  case (1 ls level idx acc)
  show ?case
  proof (cases "int level < int (length ls) - 1")
    case True
    from "1.IH" [OF True refl refl refl refl] True show ?thesis
      by (subst getProof_loop_v2.simps, subst getProof_loop.simps) (simp only: if_True Let_def)
  next
    case False
    then show ?thesis
      by (subst getProof_loop_v2.simps, subst getProof_loop.simps) (simp only: if_False)
  qed
qed

lemma getProof_loop_v3_eq:
  "getProof_loop_v3 ls level idx acc = getProof_loop ls level idx acc"
proof (induction ls level idx acc rule: getProof_loop.induct)
  case (1 ls level idx acc)
  show ?case
  proof (cases "int level < int (length ls) - 1")
    case True
    from "1.IH" [OF True refl refl refl refl] True show ?thesis
      by (subst getProof_loop_v3.simps, subst getProof_loop.simps) (simp only: if_True Let_def)
  next
    case False
    then show ?thesis
      by (subst getProof_loop_v3.simps, subst getProof_loop.simps) (simp only: if_False)
  qed
qed

text \<open>
  Claim C9. The Merkle helpers of the three viem-based scripts are extensionally equal:
  on every input (every record, every list of leaves, also the empty one and ones that
  raise) \<open>leafPacked\<close>, \<open>hashPair\<close>, \<open>buildTree\<close> and \<open>getProof\<close> of the second
  and of the third script return what those of the first return.
\<close>

theorem variants_equal:
  "leafPacked_v2 K address amount generatedLoss = leafPacked K address amount generatedLoss \<and>
   leafPacked_v3 K address amount generatedLoss = leafPacked K address amount generatedLoss \<and>
   hashPair_v2 K a b = hashPair K a b \<and>
   hashPair_v3 K a b = hashPair K a b \<and>
   buildTree_v2 K leaves = buildTree K leaves \<and>
   buildTree_v3 K leaves = buildTree K leaves \<and>
   getProof_v2 leaf ls = getProof leaf ls \<and>
   getProof_v3 leaf ls = getProof leaf ls"
proof (intro conjI)
  show "leafPacked_v2 K address amount generatedLoss = leafPacked K address amount generatedLoss"
    by (simp add: leafPacked_v2_def leafPacked_def)
  show "leafPacked_v3 K address amount generatedLoss = leafPacked K address amount generatedLoss"
    by (simp add: leafPacked_v3_def leafPacked_def)
  show "hashPair_v2 K a b = hashPair K a b" by (rule hashPair_v2_eq)
  show "hashPair_v3 K a b = hashPair K a b" by (rule hashPair_v3_eq)
  show "buildTree_v2 K leaves = buildTree K leaves"
    by (simp add: buildTree_v2_def buildTree_def buildTree_while_v2_eq)
  show "buildTree_v3 K leaves = buildTree K leaves"
    by (simp add: buildTree_v3_def buildTree_def buildTree_while_v3_eq)
  show "getProof_v2 leaf ls = getProof leaf ls"
    by (cases ls) (simp_all add: getProof_v2_def getProof_def getProof_loop_v2_eq Let_def)
  show "getProof_v3 leaf ls = getProof leaf ls"
    by (cases ls) (simp_all add: getProof_v3_def getProof_def getProof_loop_v3_eq Let_def)
qed

end
